theory Spec2Isabelle
  imports Complex_Main "HOL-Library.Sublist"
begin

section \<open>Python strings\<close>

text \<open>
  A Python \<open>str\<close> is a sequence of Unicode code points, so a string is modelled as a list
  of code points. The character classes of \<open>re\<close> and \<open>str\<close> are written out exactly for
  the ASCII range and for white space; letters and digits beyond ASCII are outside this
  model, and the theorems that depend on them carry the hypothesis \<open>ascii\<close>.
\<close>

type_synonym pystr = "nat list"

definition py :: "string \<Rightarrow> pystr" where
  "py cs = map of_char cs"

definition ascii :: "pystr \<Rightarrow> bool" where
  "ascii t = list_all (\<lambda>c. c < 128) t"

definition isspace :: "nat \<Rightarrow> bool" where
  \<comment> \<open>\<open>str.isspace\<close> and the class \<open>\s\<close> of a \<open>str\<close> pattern\<close>
  "isspace c \<longleftrightarrow>
     (9 \<le> c \<and> c \<le> 13) \<or> (28 \<le> c \<and> c \<le> 32) \<or> c = 133 \<or> c = 160 \<or> c = 5760 \<or>
     (8192 \<le> c \<and> c \<le> 8202) \<or> c = 8232 \<or> c = 8233 \<or> c = 8239 \<or> c = 8287 \<or> c = 12288"

definition isupper :: "nat \<Rightarrow> bool" where
  "isupper c \<longleftrightarrow> 65 \<le> c \<and> c \<le> 90"

definition islower :: "nat \<Rightarrow> bool" where
  "islower c \<longleftrightarrow> 97 \<le> c \<and> c \<le> 122"

definition isdigit :: "nat \<Rightarrow> bool" where
  \<comment> \<open>the class \<open>\d\<close>\<close>
  "isdigit c \<longleftrightarrow> 48 \<le> c \<and> c \<le> 57"

definition isword :: "nat \<Rightarrow> bool" where
  \<comment> \<open>the class \<open>\w\<close>: alphanumerics and the underscore\<close>
  "isword c \<longleftrightarrow> isupper c \<or> islower c \<or> isdigit c \<or> c = 95"

definition isalnum :: "nat \<Rightarrow> bool" where
  "isalnum c \<longleftrightarrow> isupper c \<or> islower c \<or> isdigit c"

definition lower_char :: "nat \<Rightarrow> nat" where
  "lower_char c = (if isupper c then c + 32 else c)"

definition upper_char :: "nat \<Rightarrow> nat" where
  "upper_char c = (if islower c then c - 32 else c)"

definition lower :: "pystr \<Rightarrow> pystr" where
  "lower t = map lower_char t"

definition rstrip_by :: "(nat \<Rightarrow> bool) \<Rightarrow> pystr \<Rightarrow> pystr" where
  "rstrip_by P t = rev (dropWhile P (rev t))"

definition strip_by :: "(nat \<Rightarrow> bool) \<Rightarrow> pystr \<Rightarrow> pystr" where
  "strip_by P t = rstrip_by P (dropWhile P t)"

definition strip :: "pystr \<Rightarrow> pystr" where
  \<comment> \<open>\<open>str.strip()\<close>\<close>
  "strip t = strip_by isspace t"

definition strip_chars :: "pystr \<Rightarrow> pystr \<Rightarrow> pystr" where
  \<comment> \<open>\<open>str.strip(chars)\<close>: the argument is a set of characters\<close>
  "strip_chars chars t = strip_by (\<lambda>c. c \<in> set chars) t"

definition rstrip_chars :: "pystr \<Rightarrow> pystr \<Rightarrow> pystr" where
  \<comment> \<open>\<open>str.rstrip(chars)\<close>: the argument is a set of characters, not a suffix\<close>
  "rstrip_chars chars t = rstrip_by (\<lambda>c. c \<in> set chars) t"

function sub_runs :: "(nat \<Rightarrow> bool) \<Rightarrow> pystr \<Rightarrow> pystr \<Rightarrow> pystr" where
  \<comment> \<open>\<open>re.sub('[P]+', r, t)\<close>: every maximal run of characters of the class becomes \<open>r\<close>\<close>
  "sub_runs P r [] = []"
| "sub_runs P r (c # cs) =
     (if P c then r @ sub_runs P r (dropWhile P cs) else c # sub_runs P r cs)"
  by pat_completeness auto
termination
  by (relation "measure (\<lambda>(P, r, t). length t)")
     (auto simp: less_Suc_eq_le length_dropWhile_le)

section \<open>slugify\<close>

definition slugify :: "pystr \<Rightarrow> pystr" where
  "slugify text0 =
     (let text1 = strip (lower text0);
          text2 = filter (\<lambda>c. isword c \<or> isspace c \<or> c = 45) text1;
          text3 = sub_runs (\<lambda>c. isspace c \<or> c = 95) (py ''-'') text2;
          text4 = sub_runs (\<lambda>c. c = 45) (py ''-'') text3
      in strip_chars (py ''-'') text4)"

text \<open>No two adjacent occurrences of the character \<open>h\<close>.\<close>

fun no_double :: "nat \<Rightarrow> pystr \<Rightarrow> bool" where
  "no_double h (a # b # cs) = (\<not> (a = h \<and> b = h) \<and> no_double h (b # cs))"
| "no_double h cs = True"

section \<open>More string operations\<close>

definition replace_char :: "nat \<Rightarrow> nat \<Rightarrow> pystr \<Rightarrow> pystr" where
  \<comment> \<open>\<open>t.replace(a, b)\<close> for one-character strings \<open>a\<close> and \<open>b\<close>\<close>
  "replace_char a b t = map (\<lambda>c. if c = a then b else c) t"

definition remove_char :: "nat \<Rightarrow> pystr \<Rightarrow> pystr" where
  \<comment> \<open>\<open>t.replace(a, "")\<close> for a one-character string \<open>a\<close>\<close>
  "remove_char a t = filter (\<lambda>c. c \<noteq> a) t"

definition split_last :: "nat \<Rightarrow> pystr \<Rightarrow> pystr" where
  \<comment> \<open>\<open>t.split(sep)[-1]\<close> for a one-character separator: what follows its last occurrence\<close>
  "split_last sep t = rev (takeWhile (\<lambda>c. c \<noteq> sep) (rev t))"

fun find_first :: "pystr \<Rightarrow> pystr \<Rightarrow> (pystr \<times> pystr) option" where
  \<comment> \<open>the text before and after the first occurrence of \<open>sep\<close>, as \<open>t.split(sep, 1)\<close>
     returns them when \<open>sep\<close> occurs\<close>
  "find_first sep [] = (if sep = [] then Some ([], []) else None)"
| "find_first sep (c # cs) =
     (if prefix sep (c # cs) then Some ([], drop (length sep) (c # cs))
      else (case find_first sep cs of None \<Rightarrow> None | Some (a, b) \<Rightarrow> Some (c # a, b)))"

definition strip_prefix :: "pystr \<Rightarrow> pystr \<Rightarrow> pystr option" where
  \<comment> \<open>matching a literal at the start of the text: what follows it\<close>
  "strip_prefix p t = (if prefix p t then Some (drop (length p) t) else None)"

fun title_from :: "bool \<Rightarrow> pystr \<Rightarrow> pystr" where
  \<comment> \<open>the loop of \<open>str.title()\<close>; the flag is \<open>previous_is_cased\<close>\<close>
  "title_from prev [] = []"
| "title_from prev (c # cs) =
     (if isupper c \<or> islower c
      then (if prev then lower_char c else upper_char c) # title_from True cs
      else c # title_from False cs)"

definition title :: "pystr \<Rightarrow> pystr" where
  "title t = title_from False t"

section \<open>extract\_product\_data: titles\<close>

record product =
  title_nl :: pystr
  title_en :: pystr
  ident :: int  \<comment> \<open>the key \<open>"id"\<close>\<close>
  price :: "rat option"
  images :: "pystr list"

definition url_slug :: "pystr \<Rightarrow> pystr" where
  \<comment> \<open>\<open>url.rstrip(".html").split("/")[-1]\<close>\<close>
  "url_slug url = split_last 47 (rstrip_chars (py ''.html'') url)"

definition slug_title :: "pystr \<Rightarrow> pystr" where
  \<comment> \<open>\<open>part.replace("-", " ").strip().title()\<close>\<close>
  "slug_title part = title (strip (replace_char 45 32 part))"

definition extract_titles :: "pystr \<Rightarrow> pystr \<times> pystr" where
  "extract_titles url =
     (let slug = url_slug url
      in if sublist (py ''--'') slug
         then (case find_first (py ''--'') slug of
                 Some (nl, en) \<Rightarrow> (slug_title nl, slug_title en)
               | None \<Rightarrow> (slug_title slug, slug_title slug))
         else (slug_title slug, slug_title slug))"

section \<open>extract\_product\_data: price\<close>

definition euro :: nat where
  "euro = 8364"

definition price_class :: "nat \<Rightarrow> bool" where
  \<comment> \<open>the class \<open>[\d.,]\<close>\<close>
  "price_class c \<longleftrightarrow> isdigit c \<or> c = 46 \<or> c = 44"

fun price_search :: "pystr \<Rightarrow> pystr option" where
  \<comment> \<open>group 1 of the leftmost match of the pattern: the euro sign, optional white space,
     then the longest run of digits, points and commas, which must not be empty\<close>
  "price_search [] = None"
| "price_search (c # cs) =
     (if c = euro \<and> takeWhile price_class (dropWhile isspace cs) \<noteq> []
      then Some (takeWhile price_class (dropWhile isspace cs))
      else price_search cs)"

definition digits_value :: "pystr \<Rightarrow> nat" where
  "digits_value t = foldl (\<lambda>n c. 10 * n + (c - 48)) 0 t"

definition py_float :: "pystr \<Rightarrow> rat option" where
  \<comment> \<open>\<open>float(t)\<close> on the strings \<open>extract_product_data\<close> passes, which hold digits and
     points only: digits with at most one point and at least one digit, else ValueError
     (\<open>None\<close>). The value is the exact decimal; rounding to a double is not modelled.\<close>
  "py_float t =
     (let ip = takeWhile isdigit t; rest = dropWhile isdigit t
      in if rest = [] then (if ip = [] then None else Some (of_nat (digits_value ip)))
         else if hd rest = 46 \<and> list_all isdigit (tl rest) \<and> (ip \<noteq> [] \<or> tl rest \<noteq> [])
         then Some (of_nat (digits_value (ip @ tl rest)) / 10 ^ length (tl rest))
         else None)"

definition price_str :: "pystr \<Rightarrow> pystr" where
  \<comment> \<open>\<open>group.replace(".", "").replace(",", ".")\<close>\<close>
  "price_str g = replace_char 44 46 (remove_char 46 g)"

definition extract_price :: "pystr \<Rightarrow> rat option" where
  \<comment> \<open>\<open>None\<close>: the key \<open>"price"\<close> is not set\<close>
  "extract_price html =
     (case price_search html of
        None \<Rightarrow> None
      | Some g \<Rightarrow> (case py_float (price_str g) of Some v \<Rightarrow> Some v | None \<Rightarrow> Some 0))"

section \<open>extract\_product\_data: images\<close>

definition isquote :: "nat \<Rightarrow> bool" where
  \<comment> \<open>the class \<open>["']\<close>\<close>
  "isquote c \<longleftrightarrow> c = 34 \<or> c = 39"

definition upload_path :: pystr where
  "upload_path = py ''/data/upload/Shop/images/''"

definition attr_start :: "pystr \<Rightarrow> pystr option" where
  \<comment> \<open>\<open>(?:src|href)=\<close> at the start of the text\<close>
  "attr_start t =
     (case strip_prefix (py ''src='') t of
        Some r \<Rightarrow> Some r
      | None \<Rightarrow> strip_prefix (py ''href='') t)"

definition match_image_at :: "pystr \<Rightarrow> (pystr \<times> pystr) option" where
  \<comment> \<open>the image pattern matched at the start of the text: group 1 and the text after the
     match. The group is the whole run of non-quote characters after the opening quote;
     it must be closed by a quote and hold the upload path followed by at least one more
     character.\<close>
  "match_image_at t =
     (case attr_start t of
        None \<Rightarrow> None
      | Some [] \<Rightarrow> None
      | Some (q # u) \<Rightarrow>
          if isquote q
          then (let r = takeWhile (\<lambda>c. \<not> isquote c) u; v = dropWhile (\<lambda>c. \<not> isquote c) u
                in case find_first upload_path r of
                     None \<Rightarrow> None
                   | Some (a, b) \<Rightarrow> if b \<noteq> [] \<and> v \<noteq> [] then Some (r, tl v) else None)
          else None)"

function image_matches :: "pystr \<Rightarrow> pystr list" where
  \<comment> \<open>\<open>re.findall\<close> with the image pattern: the groups of the successive matches, each
     search starting where the previous match ended\<close>
  "image_matches [] = []"
| "image_matches (c # cs) =
     (case match_image_at (c # cs) of
        Some (g, rest) \<Rightarrow> g # image_matches rest
      | None \<Rightarrow> image_matches cs)"
  by pat_completeness auto
termination
proof (relation "measure length")
  show "wf (measure length)" by simp
next
  fix c :: nat and cs :: pystr
  show "(cs, c # cs) \<in> measure length" by simp
next
  fix c :: nat and cs rest g :: pystr and x2
  assume m: "match_image_at (c # cs) = Some x2" and x: "(g, rest) = x2"
  let ?t = "c # cs"
  from m x obtain q u where s: "attr_start ?t = Some (q # u)"
    and r: "rest = tl (dropWhile (\<lambda>c. \<not> isquote c) u)"
    by (auto simp: match_image_at_def Let_def split: option.splits list.splits if_splits)
  from s have "prefix (py ''src='') ?t \<and> q # u = drop (length (py ''src='')) ?t \<or>
               prefix (py ''href='') ?t \<and> q # u = drop (length (py ''href='')) ?t"
    by (auto simp: attr_start_def strip_prefix_def split: option.splits if_splits)
  then have "length (q # u) \<le> length ?t"
    by (metis diff_le_self length_drop)
  moreover have "length rest \<le> length u"
    unfolding r using length_dropWhile_le[of "\<lambda>c. \<not> isquote c" u] by simp
  ultimately show "(rest, c # cs) \<in> measure length" by simp
qed

definition fromkeys :: "pystr list \<Rightarrow> pystr list" where
  \<comment> \<open>\<open>list(dict.fromkeys(ks))\<close>: a key is inserted at the end unless it is present\<close>
  "fromkeys ks = foldl (\<lambda>d k. if k \<in> set d then d else d @ [k]) [] ks"

definition og_prefix :: pystr where
  "og_prefix = py ''property='' @ [34] @ py ''og:image'' @ [34]"

definition og_content :: pystr where
  "og_content = py ''content='' @ [34]"

definition match_og_at :: "pystr \<Rightarrow> pystr option" where
  \<comment> \<open>the og:image pattern matched at the start of the text: group 1\<close>
  "match_og_at t =
     (case strip_prefix og_prefix t of
        None \<Rightarrow> None
      | Some r \<Rightarrow>
          if takeWhile isspace r = [] then None
          else (case strip_prefix og_content (dropWhile isspace r) of
                  None \<Rightarrow> None
                | Some u \<Rightarrow>
                    if takeWhile (\<lambda>c. c \<noteq> 34) u \<noteq> [] \<and> dropWhile (\<lambda>c. c \<noteq> 34) u \<noteq> []
                    then Some (takeWhile (\<lambda>c. c \<noteq> 34) u) else None))"

fun og_search :: "pystr \<Rightarrow> pystr option" where
  \<comment> \<open>\<open>re.search\<close>: the leftmost position where the pattern matches\<close>
  "og_search [] = None"
| "og_search (c # cs) =
     (case match_og_at (c # cs) of Some g \<Rightarrow> Some g | None \<Rightarrow> og_search cs)"

definition extract_images :: "pystr \<Rightarrow> pystr list" where
  "extract_images html =
     (let imgs = fromkeys (image_matches html)
      in case og_search html of
           None \<Rightarrow> imgs
         | Some og_img \<Rightarrow> if og_img \<in> set imgs then imgs else og_img # imgs)"

section \<open>extract\_product\_data: identifier\<close>

definition match_id_at :: "pystr \<Rightarrow> pystr option" where
  \<comment> \<open>the pattern \<open>/detail/(\d+)/\<close> matched at the start of the text: group 1\<close>
  "match_id_at t =
     (case strip_prefix (py ''/detail/'') t of
        None \<Rightarrow> None
      | Some r \<Rightarrow>
          if takeWhile isdigit r \<noteq> [] \<and> prefix (py ''/'') (dropWhile isdigit r)
          then Some (takeWhile isdigit r) else None)"

fun id_search :: "pystr \<Rightarrow> pystr option" where
  "id_search [] = None"
| "id_search (c # cs) =
     (case match_id_at (c # cs) of Some g \<Rightarrow> Some g | None \<Rightarrow> id_search cs)"

definition extract_id :: "pystr \<Rightarrow> int" where
  \<comment> \<open>\<open>int(match.group(1)) if match else 0\<close>\<close>
  "extract_id url = (case id_search url of Some g \<Rightarrow> int (digits_value g) | None \<Rightarrow> 0)"

section \<open>extract\_product\_data\<close>

definition extract_product_data :: "pystr \<Rightarrow> pystr \<Rightarrow> product" where
  \<comment> \<open>description, dimensions and medium are computed independently of the other
     fields and are left out\<close>
  "extract_product_data html url =
     \<lparr>title_nl = fst (extract_titles url), title_en = snd (extract_titles url),
      ident = extract_id url, price = extract_price html, images = extract_images html\<rparr>"

section \<open>Sample pages\<close>

text \<open>
  A detail page with the image occurrences \<open>[A, B, A, C]\<close>, and an og:image tag to put
  in front of it.
\<close>

definition img_a :: pystr where "img_a = py ''/data/upload/Shop/images/a.jpg''"
definition img_b :: pystr where "img_b = py ''/data/upload/Shop/images/b.jpg''"
definition img_c :: pystr where "img_c = py ''/data/upload/Shop/images/c.jpg''"

definition page_abac :: pystr where
  "page_abac =
     py ''<img src='' @ [34] @ img_a @ [34] @ py ''><a href='' @ [39] @ img_b @ [39] @
     py ''>x</a><img src='' @ [34] @ img_a @ [34] @ py ''><img src='' @ [34] @ img_c @ [34] @ py ''>''"

definition og_tag :: "pystr \<Rightarrow> pystr" where
  "og_tag u = py ''<meta property='' @ [34] @ py ''og:image'' @ [34] @ py '' content='' @ [34] @ u @ [34] @ py ''>''"

section \<open>LinkExtractor\<close>

text \<open>
  \<open>HTMLParser.feed\<close> calls \<open>handle_starttag(tag, attrs)\<close> once for every start tag of the
  page, in document order. \<open>attrs\<close> is the list of the tag's attributes, and the value of an
  attribute written without a value, as in \<open><a href>\<close>, is \<open>None\<close>. The parser belongs
  to the standard library; the page is given here as the sequence of its start tags.
\<close>

datatype py_error = TypeError | ValueError | OSError pystr

type_synonym attrs = "(pystr \<times> pystr option) list"

type_synonym starttag = "pystr \<times> attrs"

definition dict_get :: "attrs \<Rightarrow> pystr \<Rightarrow> pystr option \<Rightarrow> pystr option" where
  \<comment> \<open>\<open>dict(attrs).get(key, default)\<close>: the last pair of a repeated key wins\<close>
  "dict_get al key dflt = (case map_of (rev al) key of None \<Rightarrow> dflt | Some v \<Rightarrow> v)"

definition qualifies :: "pystr \<Rightarrow> bool" where
  \<comment> \<open>\<open>"/detail/" in href and href.endswith(".html")\<close>\<close>
  "qualifies href \<longleftrightarrow> sublist (py ''/detail/'') href \<and> suffix (py ''.html'') href"

definition handle_starttag :: "pystr list \<Rightarrow> starttag \<Rightarrow> py_error + pystr list" where
  \<comment> \<open>the state is \<open>self.links\<close>; the operator \<open>in\<close> raises TypeError on \<open>None\<close>\<close>
  "handle_starttag links ev =
     (if fst ev = py ''a''
      then (case dict_get (snd ev) (py ''href'') (Some []) of
              None \<Rightarrow> Inl TypeError
            | Some href \<Rightarrow>
                if qualifies href
                then (if href \<in> set links then Inr links else Inr (links @ [href]))
                else Inr links)
      else Inr links)"

fun feed :: "pystr list \<Rightarrow> starttag list \<Rightarrow> py_error + pystr list" where
  "feed links [] = Inr links"
| "feed links (ev # evs) =
     (case handle_starttag links ev of Inl err \<Rightarrow> Inl err | Inr links' \<Rightarrow> feed links' evs)"

definition extract_links :: "starttag list \<Rightarrow> py_error + pystr list" where
  \<comment> \<open>\<open>parser = LinkExtractor(); parser.feed(html); parser.links\<close>\<close>
  "extract_links evs = feed [] evs"

definition anchor_hrefs :: "starttag list \<Rightarrow> pystr option list" where
  \<comment> \<open>the \<open>href\<close> of every anchor of the page, the empty string where it has none\<close>
  "anchor_hrefs evs =
     map (\<lambda>ev. dict_get (snd ev) (py ''href'') (Some [])) (filter (\<lambda>ev. fst ev = py ''a'') evs)"

definition link_1 :: pystr where
  "link_1 = py ''/webshop/schilderijenpaintings/abstract/detail/12/de-kloof--the-gap.html''"

definition link_2 :: pystr where
  "link_2 = py ''/webshop/schilderijenpaintings/abstract/detail/15/stilte.html''"

definition listing_page :: "starttag list" where
  \<comment> \<open>two detail links, the first of them twice, and a link without the detail segment\<close>
  "listing_page =
     [(py ''div'', [(py ''class'', Some (py ''products''))]),
      (py ''a'', [(py ''href'', Some link_1)]),
      (py ''img'', [(py ''src'', Some (py ''/data/upload/Shop/images/a.jpg''))]),
      (py ''a'', [(py ''href'', Some (py ''/webshop/schilderijenpaintings/abstract/index.html''))]),
      (py ''a'', [(py ''class'', Some (py ''more'')), (py ''href'', Some link_2)]),
      (py ''a'', [(py ''href'', Some link_1)])]"

definition listing_page_bare_href :: "starttag list" where
  \<comment> \<open>the same page followed by \<open><a href>\<close>\<close>
  "listing_page_bare_href = listing_page @ [(py ''a'', [(py ''href'', None)])]"

section \<open>The network, the file system and the console\<close>

type_synonym bytes = "nat list"

type_synonym path = "pystr list"

datatype response =
    ConnFailed pystr  \<comment> \<open>\<open>urlopen\<close> raised; the text of the exception\<close>
  | ReadFailed pystr  \<comment> \<open>\<open>urlopen\<close> returned and \<open>resp.read()\<close> raised\<close>
  | Body bytes        \<comment> \<open>the whole body was read\<close>

datatype node = File bytes | Dir

datatype write_outcome =
    WriteOk
  | OpenFails pystr       \<comment> \<open>opening the file for writing raised\<close>
  | WriteFails nat pystr  \<comment> \<open>the write raised after that many bytes\<close>

text \<open>
  What the program cannot decide: the outcome of the \<open>n\<close>-th request of the run, the
  failures of the file system (\<open>stat_fault\<close> is the \<open>OSError\<close> that \<open>Path.exists\<close> lets
  through, such as a denied permission; a missing file is not one), and three library
  functions taken as they are (\<open>bytes.decode("utf-8", errors="replace")\<close>, which never
  raises, the extension \<open>os.path.splitext(urlparse(u).path)[1]\<close> of a URL, which is
  \<open>None\<close> where \<open>urlparse\<close> raises \<open>ValueError\<close>, and the start tags that \<open>HTMLParser\<close>
  finds in a page).
\<close>

record env =
  net :: "nat \<Rightarrow> pystr \<Rightarrow> response"
  decode :: "bytes \<Rightarrow> pystr"
  stat_fault :: "path \<Rightarrow> pystr option"
  mkdir_fault :: "path \<Rightarrow> pystr option"
  write_fault :: "path \<Rightarrow> bytes \<Rightarrow> write_outcome"
  url_ext :: "pystr \<Rightarrow> pystr option"
  starttags :: "pystr \<Rightarrow> starttag list"

record world =
  fs :: "path \<rightharpoonup> node"
  requests :: nat         \<comment> \<open>the number of requests sent so far\<close>
  out :: "pystr list"     \<comment> \<open>the lines printed so far\<close>
  slept :: rat            \<comment> \<open>the seconds spent in \<open>time.sleep\<close>\<close>

definition failure_of :: "response \<Rightarrow> pystr option" where
  "failure_of r = (case r of ConnFailed c \<Rightarrow> Some c | ReadFailed c \<Rightarrow> Some c | Body b \<Rightarrow> None)"

function show_nat :: "nat \<Rightarrow> pystr" where
  \<comment> \<open>\<open>str(n)\<close>\<close>
  "show_nat n = (if n < 10 then [48 + n] else show_nat (n div 10) @ [48 + n mod 10])"
  by pat_completeness auto
termination
  by (relation "measure id") auto

section \<open>fetch\<close>

definition attempt_failed :: "int \<Rightarrow> pystr \<Rightarrow> pystr \<Rightarrow> pystr" where
  \<comment> \<open>the line \<open>f"  Attempt {attempt + 1} failed for {url}: {e}"\<close>\<close>
  "attempt_failed attempt url cause =
     py ''  Attempt '' @ show_nat (nat (attempt + 1)) @ py '' failed for '' @ url @ py '': '' @ cause"

function fetch_loop :: "env \<Rightarrow> pystr \<Rightarrow> int \<Rightarrow> int \<Rightarrow> world \<Rightarrow> pystr option \<times> world" where
  \<comment> \<open>the iterations of \<open>for attempt in range(retries)\<close> from \<open>attempt\<close> on\<close>
  "fetch_loop e url retries attempt w =
     (if attempt < retries
      then (case net e (requests w) url of
              Body b \<Rightarrow> (Some (decode e b), w\<lparr>requests := requests w + 1\<rparr>)
            | r \<Rightarrow>
                fetch_loop e url retries (attempt + 1)
                  (w\<lparr>requests := requests w + 1,
                     out := out w @ [attempt_failed attempt url (the (failure_of r))],
                     slept := slept w + (if attempt < retries - 1 then 2 else 0)\<rparr>))
      else (None, w))"
  by pat_completeness auto
termination
  by (relation "measure (\<lambda>(e, url, retries, attempt, w). nat (retries - attempt))") auto

definition fetch :: "env \<Rightarrow> pystr \<Rightarrow> int \<Rightarrow> world \<Rightarrow> pystr option \<times> world" where
  "fetch e url retries w = fetch_loop e url retries 0 w"

section \<open>Sample environments\<close>

definition world0 :: world where
  \<comment> \<open>the start of a run on an empty disk\<close>
  "world0 = \<lparr>fs = Map.empty, requests = 0, out = [], slept = 0\<rparr>"

definition no_fault :: "path \<Rightarrow> pystr option" where
  "no_fault p = None"

definition write_ok :: "path \<Rightarrow> bytes \<Rightarrow> write_outcome" where
  "write_ok p b = WriteOk"

definition latin1 :: "bytes \<Rightarrow> pystr" where
  \<comment> \<open>stands for \<open>decode\<close> on the sample bodies, which are ASCII\<close>
  "latin1 b = b"

definition jpg_ext :: "pystr \<Rightarrow> pystr option" where
  \<comment> \<open>stands for the extension of the sample URLs, which end in \<open>.jpg\<close>\<close>
  "jpg_ext u = Some (py ''.jpg'')"

definition no_tags :: "pystr \<Rightarrow> starttag list" where
  "no_tags h = []"

definition timed_out :: "nat \<Rightarrow> pystr \<Rightarrow> response" where
  "timed_out n u = ConnFailed (py ''timed out'')"

definition dead_env :: env where
  \<comment> \<open>every request fails\<close>
  "dead_env = \<lparr>net = timed_out, decode = latin1, stat_fault = no_fault,
     mkdir_fault = no_fault,
               write_fault = write_ok, url_ext = jpg_ext, starttags = no_tags\<rparr>"

definition listing_url :: pystr where
  "listing_url = py ''https://sanderveen-artshop.nl/webshop/schilderijenpaintings/abstract/''"

section \<open>download\_image\<close>

definition path_name :: "path \<Rightarrow> pystr" where
  \<comment> \<open>\<open>dest_path.name\<close>\<close>
  "path_name p = (if p = [] then [] else last p)"

definition say :: "pystr \<Rightarrow> world \<Rightarrow> world" where
  \<comment> \<open>\<open>print(line)\<close>\<close>
  "say line w = w\<lparr>out := out w @ [line]\<rparr>"

fun mkdir_chain :: "env \<Rightarrow> path list \<Rightarrow> (path \<rightharpoonup> node) \<Rightarrow> pystr option \<times> (path \<rightharpoonup> node)" where
  \<comment> \<open>creating the listed directories in turn, each unless it is there already; the
     result is the cause of the failure, if any, and the file system as it was left\<close>
  "mkdir_chain e [] f = (None, f)"
| "mkdir_chain e (p # ps) f =
     (case f p of
        Some Dir \<Rightarrow> mkdir_chain e ps f
      | Some (File b) \<Rightarrow> (Some (py ''[Errno 17] File exists''), f)
      | None \<Rightarrow>
          (case mkdir_fault e p of
             Some c \<Rightarrow> (Some c, f)
           | None \<Rightarrow> mkdir_chain e ps (f(p \<mapsto> Dir))))"

definition mkdir_parents :: "env \<Rightarrow> path \<Rightarrow> (path \<rightharpoonup> node) \<Rightarrow> pystr option \<times> (path \<rightharpoonup> node)" where
  \<comment> \<open>\<open>p.mkdir(parents=True, exist_ok=True)\<close>: the missing ancestors of \<open>p\<close> and \<open>p\<close>
     itself, outermost first\<close>
  "mkdir_parents e p f = mkdir_chain e (tl (prefixes p)) f"

definition write_bytes :: "env \<Rightarrow> path \<Rightarrow> bytes \<Rightarrow> (path \<rightharpoonup> node) \<Rightarrow> pystr option \<times> (path \<rightharpoonup> node)" where
  \<comment> \<open>\<open>dest.write_bytes(b)\<close>: the file is opened for writing, which creates or empties
     it, and then written; no step removes it when the write fails\<close>
  "write_bytes e dest b f =
     (case write_fault e dest b of
        OpenFails c \<Rightarrow> (Some c, f)
      | WriteFails k c \<Rightarrow> (Some c, f(dest \<mapsto> File (take k b)))
      | WriteOk \<Rightarrow> (None, f(dest \<mapsto> File b)))"

definition download_failed :: "pystr \<Rightarrow> pystr \<Rightarrow> world \<Rightarrow> bool \<times> world" where
  \<comment> \<open>the handler \<open>except Exception as e\<close>\<close>
  "download_failed url cause w =
     (False, say (py ''  Failed to download '' @ url @ py '': '' @ cause) w)"

definition try_download :: "env \<Rightarrow> pystr \<Rightarrow> path \<Rightarrow> world \<Rightarrow> bool \<times> world" where
  \<comment> \<open>the \<open>try\<close> statement of \<open>download_image\<close>\<close>
  "try_download e url dest w =
     (let w1 = w\<lparr>requests := requests w + 1\<rparr>
      in case net e (requests w) url of
           ConnFailed c \<Rightarrow> download_failed url c w1
         | ReadFailed c \<Rightarrow>
             (case mkdir_parents e (butlast dest) (fs w1) of
                (Some c', f) \<Rightarrow> download_failed url c' (w1\<lparr>fs := f\<rparr>)
              | (None, f) \<Rightarrow> download_failed url c (w1\<lparr>fs := f\<rparr>))
         | Body b \<Rightarrow>
             (case mkdir_parents e (butlast dest) (fs w1) of
                (Some c', f) \<Rightarrow> download_failed url c' (w1\<lparr>fs := f\<rparr>)
              | (None, f) \<Rightarrow>
                  (case write_bytes e dest b f of
                     (Some c, f') \<Rightarrow> download_failed url c (w1\<lparr>fs := f'\<rparr>)
                   | (None, f') \<Rightarrow>
                       (True, say (py ''  Downloaded: '' @ path_name dest) (w1\<lparr>fs := f'\<rparr>)))))"

definition download_image :: "env \<Rightarrow> pystr \<Rightarrow> path \<Rightarrow> world \<Rightarrow> py_error + bool \<times> world" where
  \<comment> \<open>\<open>dest_path.exists()\<close> is called before the \<open>try\<close> statement: an \<open>OSError\<close> that it
     lets through is not caught here\<close>
  "download_image e url dest w =
     (case stat_fault e dest of
        Some c \<Rightarrow> Inl (OSError c)
      | None \<Rightarrow>
          if fs w dest \<noteq> None
          then Inr (True, say (py ''  Image already exists: '' @ path_name dest) w)
          else Inr (try_download e url dest w))"

definition jpeg_head :: "nat \<Rightarrow> pystr \<Rightarrow> response" where
  "jpeg_head n u = Body [255, 216, 255, 224]"

definition no_space :: "path \<Rightarrow> bytes \<Rightarrow> write_outcome" where
  "no_space p b = WriteFails 2 (py ''[Errno 28] No space left on device'')"

definition denied :: "path \<Rightarrow> pystr option" where
  "denied p = Some (py ''[Errno 13] Permission denied'')"

definition good_env :: env where
  \<comment> \<open>every request is answered and the disk takes every write\<close>
  "good_env = \<lparr>net = jpeg_head, decode = latin1, stat_fault = no_fault,
     mkdir_fault = no_fault, write_fault = write_ok, url_ext = jpg_ext, starttags = no_tags\<rparr>"

definition disk_full_env :: env where
  \<comment> \<open>every request is answered and the disk is full after two bytes of a write\<close>
  "disk_full_env = \<lparr>net = jpeg_head, decode = latin1, stat_fault = no_fault,
     mkdir_fault = no_fault, write_fault = no_space, url_ext = jpg_ext, starttags = no_tags\<rparr>"

definition locked_env :: env where
  \<comment> \<open>the existence of a path cannot be determined\<close>
  "locked_env = \<lparr>net = jpeg_head, decode = latin1, stat_fault = denied,
     mkdir_fault = no_fault, write_fault = write_ok, url_ext = jpg_ext, starttags = no_tags\<rparr>"

definition image_url :: pystr where
  "image_url = py ''https://sanderveen-artshop.nl/data/upload/Shop/images/a.jpg''"

definition image_dest :: path where
  "image_dest = [py ''assets'', py ''images'', py ''paintings'', py ''abstract'', py ''de-kloof.jpg'']"

section \<open>main: one detail page\<close>

record painting = product +
  category :: pystr
  page_url :: pystr  \<comment> \<open>the key \<open>"url"\<close>\<close>
  slug :: pystr
  local_image :: pystr

definition BASE_URL :: pystr where
  "BASE_URL = py ''https://sanderveen-artshop.nl''"

definition OUTPUT_DIR :: path where
  \<comment> \<open>relative to the directory of the project\<close>
  "OUTPUT_DIR = [py ''assets'', py ''images'', py ''paintings'']"

definition absolute :: "pystr \<Rightarrow> pystr" where
  \<comment> \<open>\<open>u if u.startswith("http") else BASE_URL + u\<close>\<close>
  "absolute u = (if prefix (py ''http'') u then u else BASE_URL @ u)"

definition img_filename :: "pystr \<Rightarrow> pystr \<Rightarrow> pystr" where
  \<comment> \<open>\<open>data["slug"] + ext\<close> with \<open>ext = splitext(...)[1] or ".jpg"\<close>\<close>
  "img_filename slg x = slg @ (if x = [] then py ''.jpg'' else x)"

definition img_path :: "pystr \<Rightarrow> pystr \<Rightarrow> path" where
  \<comment> \<open>\<open>cat_dir / img_filename\<close> with \<open>cat_dir = OUTPUT_DIR / category\<close>; the file name,
     a slug and an extension, holds no separator\<close>
  "img_path cat filename = OUTPUT_DIR @ [cat, filename]"

definition store_image :: "env \<Rightarrow> pystr \<Rightarrow> pystr \<Rightarrow> pystr list \<Rightarrow> world \<Rightarrow> py_error + pystr \<times> world" where
  \<comment> \<open>the statement \<open>if data["images"]\<close> of \<open>main\<close>: the value of \<open>data["local_image"]\<close>
     and the effects. The value that \<open>download_image\<close> returns is not used; an exception
     of \<open>urlparse\<close> or of \<open>download_image\<close> is not caught.\<close>
  "store_image e cat slg imgs w =
     (case imgs of
        [] \<Rightarrow> Inr ([], say (py ''  No image found!'') w)
      | i # _ \<Rightarrow>
          (case url_ext e (absolute i) of
             None \<Rightarrow> Inl ValueError
           | Some x \<Rightarrow>
               (case download_image e (absolute i) (img_path cat (img_filename slg x)) w of
                  Inl err \<Rightarrow> Inl err
                | Inr r \<Rightarrow>
                    Inr (py ''images/paintings/'' @ cat @ py ''/'' @ img_filename slg x, snd r))))"

definition process_detail :: "env \<Rightarrow> pystr \<Rightarrow> pystr \<Rightarrow> pystr \<Rightarrow> world \<Rightarrow> py_error + painting \<times> world" where
  \<comment> \<open>the body of the loop over the links, from \<open>extract_product_data\<close> to the record
     that is appended to \<open>paintings\<close>\<close>
  "process_detail e cat link detail_html w =
     (let d = extract_product_data detail_html link;
          slg = slugify (title_nl d)
      in case store_image e cat slg (images d) w of
           Inl err \<Rightarrow> Inl err
         | Inr r \<Rightarrow>
             Inr (\<lparr>title_nl = title_nl d, title_en = title_en d, ident = ident d,
                   price = price d, images = images d, category = cat, page_url = link,
                   slug = slg, local_image = fst r\<rparr>, snd r))"

section \<open>main: the crawl\<close>

definition CATEGORIES :: "(pystr \<times> pystr) list" where
  "CATEGORIES =
     [(py ''abstract'', py ''/webshop/schilderijenpaintings/abstract/''),
      (py ''magisch-realisme'',
       py ''/webshop/schilderijenpaintings/magisch-realisme--reverso-context/'')]"

definition process_link :: "env \<Rightarrow> pystr \<Rightarrow> pystr \<Rightarrow> painting list \<times> world \<Rightarrow> py_error + painting list \<times> world" where
  \<comment> \<open>one iteration of \<open>for link in detail_links\<close>; an empty page counts as a failed
     fetch (\<open>if not detail_html\<close>)\<close>
  "process_link e cat link s =
     (let r = fetch e (absolute link) 3
                (say (10 # py ''Processing: '' @ split_last 47 link) (snd s))
      in if fst r = None \<or> fst r = Some []
         then Inr (fst s, say (py ''  Failed to fetch detail page'') (snd r))
         else (case process_detail e cat link (the (fst r)) (snd r) of
                 Inl err \<Rightarrow> Inl err
               | Inr d \<Rightarrow> Inr (fst s @ [fst d], (snd d)\<lparr>slept := slept (snd d) + 1 / 2\<rparr>)))"

fun process_links :: "env \<Rightarrow> pystr \<Rightarrow> pystr list \<Rightarrow> painting list \<times> world \<Rightarrow> py_error + painting list \<times> world" where
  "process_links e cat [] s = Inr s"
| "process_links e cat (link # links) s =
     (case process_link e cat link s of
        Inl err \<Rightarrow> Inl err
      | Inr s' \<Rightarrow> process_links e cat links s')"

definition process_category :: "env \<Rightarrow> pystr \<times> pystr \<Rightarrow> painting list \<times> world \<Rightarrow> py_error + painting list \<times> world" where
  \<comment> \<open>one iteration of \<open>for category, cat_path in CATEGORIES.items()\<close>; an exception of
     the link extractor, of \<open>cat_dir.mkdir\<close> or of an item is not caught and ends the run\<close>
  "process_category e c s =
     (let cat_url = BASE_URL @ snd c;
          r = fetch e cat_url 3 (say (10 # py ''--- Category: '' @ fst c @ py '' ---'') (snd s))
      in if fst r = None \<or> fst r = Some []
         then Inr (fst s, say (py ''Failed to fetch category page: '' @ cat_url) (snd r))
         else (case extract_links (starttags e (the (fst r))) of
                 Inl err \<Rightarrow> Inl err
               | Inr links \<Rightarrow>
                   (let w2 = say (py ''Found '' @ show_nat (length links) @
                                  py '' paintings in '' @ fst c) (snd r);
                        m = mkdir_parents e (OUTPUT_DIR @ [fst c]) (fs w2)
                    in if fst m \<noteq> None then Inl (OSError (the (fst m)))
                       else process_links e (fst c) links (fst s, w2\<lparr>fs := snd m\<rparr>))))"

fun crawl :: "env \<Rightarrow> (pystr \<times> pystr) list \<Rightarrow> painting list \<times> world \<Rightarrow> py_error + painting list \<times> world" where
  "crawl e [] s = Inr s"
| "crawl e (c # cs) s =
     (case process_category e c s of Inl err \<Rightarrow> Inl err | Inr s' \<Rightarrow> crawl e cs s')"

definition sort_by_id :: "painting list \<Rightarrow> painting list" where
  \<comment> \<open>\<open>paintings.sort(key=lambda p: p.get("id", 0), reverse=True)\<close>: a stable sort of
     the reversed list, reversed again\<close>
  "sort_by_id ps = rev (sort_key ident (rev ps))"

definition main :: "env \<Rightarrow> world \<Rightarrow> py_error + painting list \<times> world" where
  \<comment> \<open>the records handed to \<open>json.dump\<close> and the world at that moment\<close>
  "main e w =
     (case crawl e CATEGORIES ([], w) of
        Inl err \<Rightarrow> Inl err
      | Inr r \<Rightarrow> Inr (sort_by_id (fst r), snd r))"

definition manifest :: "py_error + painting list \<times> world \<Rightarrow> painting list" where
  \<comment> \<open>the records of a run, none when the run ended with an exception\<close>
  "manifest r = (case r of Inl err \<Rightarrow> [] | Inr s \<Rightarrow> fst s)"

definition local_image_set :: "painting \<Rightarrow> bool" where
  \<comment> \<open>the local image of a record is empty exactly when the record has no images\<close>
  "local_image_set p \<longleftrightarrow> (local_image p = [] \<longleftrightarrow> images p = [])"

definition stilte_listing :: pystr where
  "stilte_listing = py ''<a href='' @ [34] @ link_2 @ [34] @ py ''>Stilte</a>''"

definition stilte_tags :: "pystr \<Rightarrow> starttag list" where
  "stilte_tags h = (if h = stilte_listing then [(py ''a'', [(py ''href'', Some link_2)])] else [])"

definition stilte_net :: "nat \<Rightarrow> pystr \<Rightarrow> response" where
  \<comment> \<open>the listing of the first category and its one detail page are served, as bytes of
     ASCII text; every other request, that for the image included, fails\<close>
  "stilte_net n u =
     (if u = listing_url then Body stilte_listing
      else if u = BASE_URL @ link_2 then Body page_abac
      else ConnFailed (py ''HTTP Error 404: Not Found''))"

definition stilte_env :: env where
  "stilte_env = \<lparr>net = stilte_net, decode = latin1, stat_fault = no_fault,
     mkdir_fault = no_fault, write_fault = write_ok, url_ext = jpg_ext, starttags = stilte_tags\<rparr>"

definition stilte_image :: path where
  "stilte_image = [py ''assets'', py ''images'', py ''paintings'', py ''abstract'', py ''stilte.jpg'']"

section \<open>Evaluation\<close>

text \<open>The defining equations used to evaluate the model on concrete inputs.\<close>

named_theorems pyeval

declare py_def [pyeval] ascii_def [pyeval] isspace_def [pyeval] isupper_def [pyeval]
  islower_def [pyeval] isdigit_def [pyeval] isword_def [pyeval] isalnum_def [pyeval]
  lower_char_def [pyeval] upper_char_def [pyeval] lower_def [pyeval] rstrip_by_def [pyeval]
  strip_by_def [pyeval] strip_def [pyeval] strip_chars_def [pyeval] rstrip_chars_def [pyeval]
  slugify_def [pyeval] replace_char_def [pyeval] remove_char_def [pyeval]
  split_last_def [pyeval] strip_prefix_def [pyeval] title_def [pyeval] url_slug_def [pyeval]
  slug_title_def [pyeval] extract_titles_def [pyeval] euro_def [pyeval]
  price_class_def [pyeval] digits_value_def [pyeval] py_float_def [pyeval]
  price_str_def [pyeval] extract_price_def [pyeval] isquote_def [pyeval]
  upload_path_def [pyeval] attr_start_def [pyeval] match_image_at_def [pyeval]
  fromkeys_def [pyeval] og_prefix_def [pyeval] og_content_def [pyeval]
  match_og_at_def [pyeval] extract_images_def [pyeval] extract_product_data_def [pyeval]
  Let_def [pyeval] sublist_code(3) [pyeval] show_nat.simps [pyeval]

declare show_nat.simps [simp del]

section \<open>Properties of the string functions\<close>


lemma set_sub_runs: "set (sub_runs P r t) \<subseteq> set r \<union> {c \<in> set t. \<not> P c}"
proof (induction P r t rule: sub_runs.induct)
  case (1 P r)
  then show ?case by simp
next
  case (2 P r c cs)
  have "set (dropWhile P cs) \<subseteq> set cs" by (rule set_dropWhileD[THEN subsetI]) 
  with 2 show ?case by (auto split: if_splits)
qed

lemma sub_runs_keeps: "c \<in> set t \<Longrightarrow> \<not> P c \<Longrightarrow> c \<in> set (sub_runs P r t)"
proof (induction P r t rule: sub_runs.induct)
  case (1 P r)
  then show ?case by simp
next
  case (2 P r d ds)
  show ?case
  proof (cases "P d")
    case True
    with 2 have "c \<in> set ds" by auto
    with \<open>\<not> P c\<close> have "c \<in> set (dropWhile P ds)"
      by (induction ds) auto
    with 2 True show ?thesis by simp
  next
    case False
    with 2 show ?thesis by auto
  qed
qed


lemma sub_runs_head: "t \<noteq> [] \<Longrightarrow> \<not> P (hd t) \<Longrightarrow> hd (sub_runs P r t) = hd t \<and> sub_runs P r t \<noteq> []"
  by (cases t) auto

lemma dropWhile_head: "dropWhile P t \<noteq> [] \<Longrightarrow> \<not> P (hd (dropWhile P t))"
  by (simp add: hd_dropWhile)

lemma no_double_Cons: "no_double h (a # t) \<longleftrightarrow> (t = [] \<or> \<not> (a = h \<and> hd t = h)) \<and> no_double h t"
  by (cases t) auto

lemma no_double_sub_runs: "no_double h (sub_runs (\<lambda>c. c = h) [h] t)"
proof (induction "\<lambda>c. c = h" "[h]" t rule: sub_runs.induct)
  case 1
  then show ?case by simp
next
  case (2 c cs)
  show ?case
  proof (cases "c = h")
    case True
    let ?d = "dropWhile (\<lambda>c. c = h) cs"
    have ih: "no_double h (sub_runs (\<lambda>c. c = h) [h] ?d)" using 2(1) True by simp
    have "sub_runs (\<lambda>c. c = h) [h] ?d = [] \<or> hd (sub_runs (\<lambda>c. c = h) [h] ?d) \<noteq> h"
    proof (cases "?d = []")
      case True then show ?thesis by (simp only: sub_runs.simps simp_thms)
    next
      case False
      then have "hd ?d \<noteq> h" using dropWhile_head[of "\<lambda>c. c = h" cs] by simp
      with False show ?thesis using sub_runs_head[of ?d "\<lambda>c. c = h" "[h]"] by simp
    qed
    with ih True show ?thesis by (simp add: no_double_Cons)
  next
    case False
    with 2(2) show ?thesis by (simp add: no_double_Cons)
  qed
qed

lemma no_double_sublist: "no_double h t \<longleftrightarrow> \<not> sublist [h, h] t"
  by (induction h t rule: no_double.induct) (auto simp: sublist_Cons_right)

lemma rstrip_by_prefix: "prefix (rstrip_by P t) t"
proof -
  have "rev t = takeWhile P (rev t) @ dropWhile P (rev t)" by simp
  then have "t = rev (dropWhile P (rev t)) @ rev (takeWhile P (rev t))"
    by (metis rev_append rev_rev_ident)
  then show ?thesis unfolding rstrip_by_def by (metis prefixI)
qed

lemma strip_by_sublist: "sublist (strip_by P t) t"
proof -
  have "sublist (strip_by P t) (dropWhile P t)"
    unfolding strip_by_def using rstrip_by_prefix by (rule prefix_imp_sublist)
  moreover have "sublist (dropWhile P t) t"
    by (rule suffix_imp_sublist) (rule suffix_dropWhile)
  ultimately show ?thesis by (rule sublist_order.order_trans)
qed

lemma strip_by_keeps: "c \<in> set t \<Longrightarrow> \<not> P c \<Longrightarrow> c \<in> set (strip_by P t)"
proof -
  have a: "\<And>u. c \<in> set u \<Longrightarrow> \<not> P c \<Longrightarrow> c \<in> set (dropWhile P u)"
  proof -
    fix u show "c \<in> set u \<Longrightarrow> \<not> P c \<Longrightarrow> c \<in> set (dropWhile P u)" by (induction u) auto
  qed
  assume "c \<in> set t" "\<not> P c"
  then have "c \<in> set (dropWhile P t)" by (rule a)
  then have "c \<in> set (rev (dropWhile P t))" by simp
  then have "c \<in> set (dropWhile P (rev (dropWhile P t)))" using \<open>\<not> P c\<close> by (rule a)
  then show ?thesis by (simp add: strip_by_def rstrip_by_def)
qed

lemma strip_by_ends:
  assumes "strip_by P t \<noteq> []"
  shows "\<not> P (hd (strip_by P t)) \<and> \<not> P (last (strip_by P t))"
proof -
  let ?u = "dropWhile P t"
  from assms have ne: "dropWhile P (rev ?u) \<noteq> []" by (simp add: strip_by_def rstrip_by_def)
  then have "\<not> P (hd (dropWhile P (rev ?u)))" by (rule dropWhile_head)
  then have l: "\<not> P (last (strip_by P t))"
    using ne by (simp add: strip_by_def rstrip_by_def last_rev)
  have "?u \<noteq> []"
  proof
    assume "?u = []"
    then have "strip_by P t = []" by (simp only: strip_by_def rstrip_by_def rev.simps dropWhile.simps)
    with assms show False by simp
  qed
  then have h: "\<not> P (hd ?u)" by (rule dropWhile_head)
  have "prefix (strip_by P t) ?u" unfolding strip_by_def by (rule rstrip_by_prefix)
  with assms have "hd (strip_by P t) = hd ?u" by (auto simp: prefix_def)
  with h l show ?thesis by simp
qed


lemma lower_char_class: "\<not> isupper (lower_char c)"
  by (auto simp: lower_char_def isupper_def)

lemma lower_char_alnum: "isalnum (lower_char c) \<longleftrightarrow> isalnum c"
  by (auto simp: lower_char_def isalnum_def isupper_def islower_def isdigit_def)

lemma lower_char_nospace: "isalnum c \<Longrightarrow> \<not> isspace (lower_char c)"
  by (auto simp: lower_char_def isalnum_def isupper_def islower_def isdigit_def isspace_def)

lemma slugify_set:
  assumes "c \<in> set (slugify t)"
  shows "c = 45 \<or> (\<exists>d \<in> set t. c = lower_char d \<and> (islower c \<or> isdigit c))"
proof -
  let ?t1 = "strip (lower t)"
  let ?t2 = "filter (\<lambda>c. isword c \<or> isspace c \<or> c = 45) ?t1"
  let ?t3 = "sub_runs (\<lambda>c. isspace c \<or> c = 95) (py ''-'') ?t2"
  let ?t4 = "sub_runs (\<lambda>c. c = 45) (py ''-'') ?t3"
  have "sublist (slugify t) ?t4"
    by (simp add: slugify_def Let_def strip_chars_def strip_by_sublist)
  with assms have "c \<in> set ?t4" using set_mono_sublist by blast
  then have "c = 45 \<or> c \<in> set ?t3" using set_sub_runs[of "\<lambda>c. c = 45" "py ''-''" ?t3]
    by (auto simp: py_def)
  then have "c = 45 \<or> (c \<in> set ?t2 \<and> \<not> isspace c \<and> c \<noteq> 95)"
    using set_sub_runs[of "\<lambda>c. isspace c \<or> c = 95" "py ''-''" ?t2]
    by (auto simp: py_def)
  then have "c = 45 \<or> (c \<in> set ?t1 \<and> isalnum c)"
    by (auto simp: isword_def isalnum_def)
  moreover have "set ?t1 \<subseteq> set (lower t)"
    unfolding strip_def using strip_by_sublist set_mono_sublist by blast
  ultimately have "c = 45 \<or> (c \<in> set (lower t) \<and> isalnum c)" by blast
  then show ?thesis
    using lower_char_class by (auto simp: lower_def isalnum_def)
qed

lemma slugify_keeps:
  assumes "d \<in> set t" and "isalnum d"
  shows "lower_char d \<in> set (slugify t)"
proof -
  let ?c = "lower_char d"
  let ?t1 = "strip (lower t)"
  let ?t2 = "filter (\<lambda>c. isword c \<or> isspace c \<or> c = 45) ?t1"
  let ?t3 = "sub_runs (\<lambda>c. isspace c \<or> c = 95) (py ''-'') ?t2"
  let ?t4 = "sub_runs (\<lambda>c. c = 45) (py ''-'') ?t3"
  have an: "isalnum ?c" using assms(2) by (simp add: lower_char_alnum)
  have ns: "\<not> isspace ?c" using assms(2) by (rule lower_char_nospace)
  have n95: "?c \<noteq> 95" and n45: "?c \<noteq> 45"
    using an by (auto simp: isalnum_def isupper_def islower_def isdigit_def)
  have "?c \<in> set (lower t)" using assms(1) by (simp add: lower_def)
  then have "?c \<in> set ?t1" unfolding strip_def using ns by (rule strip_by_keeps)
  then have "?c \<in> set ?t2" using an by (auto simp: isword_def isalnum_def)
  then have "?c \<in> set ?t3"
    using ns n95 sub_runs_keeps[of ?c ?t2 "\<lambda>c. isspace c \<or> c = 95"] by blast
  then have "?c \<in> set ?t4"
    using n45 sub_runs_keeps[of ?c ?t3 "\<lambda>c. c = 45"] by blast
  moreover have "?c \<notin> set (py ''-'')" using n45 by (simp add: py_def)
  ultimately have "?c \<in> set (strip_chars (py ''-'') ?t4)"
    unfolding strip_chars_def using strip_by_keeps[of ?c ?t4 "\<lambda>c. c \<in> set (py ''-'')"] by blast
  then show ?thesis by (simp add: slugify_def Let_def)
qed

lemma slugify_no_double: "\<not> sublist (py ''--'') (slugify t)"
proof
  let ?t3 = "sub_runs (\<lambda>c. isspace c \<or> c = 95) (py ''-'')
     (filter (\<lambda>c. isword c \<or> isspace c \<or> c = 45) (strip (lower t)))"
  let ?t4 = "sub_runs (\<lambda>c. c = 45) (py ''-'') ?t3"
  assume "sublist (py ''--'') (slugify t)"
  moreover have "sublist (slugify t) ?t4"
    by (simp add: slugify_def Let_def strip_chars_def strip_by_sublist)
  ultimately have "sublist (py ''--'') ?t4" by (rule sublist_order.order_trans)
  moreover have "py ''--'' = [45, 45]" and "py ''-'' = [45]" by (simp_all add: py_def)
  ultimately have "sublist [45, 45] (sub_runs (\<lambda>c. c = 45) [45] ?t3)" by simp
  then show False using no_double_sub_runs[of 45 ?t3] by (simp add: no_double_sublist)
qed

lemma slugify_ends:
  "\<not> prefix (py ''-'') (slugify t) \<and> \<not> suffix (py ''-'') (slugify t)"
proof -
  let ?P = "\<lambda>c. c \<in> set (py ''-'')"
  obtain u where u: "slugify t = strip_by ?P u"
    by (simp add: slugify_def Let_def strip_chars_def)
  have p: "py ''-'' = [45]" by (simp add: py_def)
  have a: "\<not> prefix (py ''-'') (slugify t)"
  proof
    assume a: "prefix (py ''-'') (slugify t)"
    then have "slugify t \<noteq> []" and "hd (slugify t) = 45" by (auto simp: p prefix_def)
    then show False using strip_by_ends[of ?P u] u by (simp add: p)
  qed
  have b: "\<not> suffix (py ''-'') (slugify t)"
  proof
    assume a: "suffix (py ''-'') (slugify t)"
    then have "slugify t \<noteq> []" and "last (slugify t) = 45" by (auto simp: p suffix_def)
    then show False using strip_by_ends[of ?P u] u by (simp add: p)
  qed
  from a b show ?thesis by simp
qed

theorem slugify_shape:
  assumes "ascii t"
  shows "list_all (\<lambda>c. islower c \<or> isdigit c \<or> c = 45) (slugify t) \<and>
         \<not> sublist (py ''--'') (slugify t) \<and>
         \<not> prefix (py ''-'') (slugify t) \<and>
         \<not> suffix (py ''-'') (slugify t) \<and>
         (slugify t \<noteq> [] \<longleftrightarrow> (\<exists>c \<in> set t. isalnum c))"
proof -
  have 1: "list_all (\<lambda>c. islower c \<or> isdigit c \<or> c = 45) (slugify t)"
    unfolding list_all_iff using slugify_set by blast
  have 2: "slugify t \<noteq> [] \<longleftrightarrow> (\<exists>c \<in> set t. isalnum c)"
  proof
    assume ne: "slugify t \<noteq> []"
    then have "hd (slugify t) \<in> set (slugify t)" by simp
    moreover have "hd (slugify t) \<noteq> 45"
      using slugify_ends[of t] ne by (cases "slugify t") (auto simp: py_def)
    ultimately obtain d where "d \<in> set t" and "isalnum (lower_char d)"
      using slugify_set[of "hd (slugify t)" t] by (auto simp: isalnum_def)
    then show "\<exists>c \<in> set t. isalnum c" by (auto simp: lower_char_alnum)
  next
    assume "\<exists>c \<in> set t. isalnum c"
    then obtain d where "d \<in> set t" and "isalnum d" by blast
    then have "lower_char d \<in> set (slugify t)" by (rule slugify_keeps)
    then show "slugify t \<noteq> []" by auto
  qed
  show ?thesis
    using 1 2 slugify_no_double[of t] slugify_ends[of t] by simp
qed

theorem slugify_shape_witness:
  "ascii (py ''De Kloof'') \<and> slugify (py ''De Kloof'') = py ''de-kloof'' \<and>
   list_all (\<lambda>c. islower c \<or> isdigit c \<or> c = 45) (slugify (py ''De Kloof'')) \<and>
   \<not> sublist (py ''--'') (slugify (py ''De Kloof'')) \<and>
   \<not> prefix (py ''-'') (slugify (py ''De Kloof'')) \<and>
   \<not> suffix (py ''-'') (slugify (py ''De Kloof'')) \<and>
   (slugify (py ''De Kloof'') \<noteq> [] \<longleftrightarrow> (\<exists>c \<in> set (py ''De Kloof''). isalnum c))"
proof -
  have a: "ascii (py ''De Kloof'')" by (simp add: pyeval)
  have b: "slugify (py ''De Kloof'') = py ''de-kloof''"
    by (simp add: pyeval)
  from a b slugify_shape[OF a] show ?thesis by blast
qed

theorem slugify_empty_counterexample:
  "slugify (py ''?!'') = []"
  by (simp add: pyeval)

section \<open>Title derivation\<close>

lemma extract_titles_bilingual:
  "extract_titles (py ''/webshop/schilderijenpaintings/abstract/detail/7/de-kloof--the-gap.html'')
     = (py ''De Kloof'', py ''The Gap'')"
  by (simp add: pyeval)

lemma extract_titles_single:
  "extract_titles (py ''/webshop/schilderijenpaintings/abstract/detail/7/de-kloof.html'')
     = (py ''De Kloof'', py ''De Kloof'')"
  by (simp add: pyeval)

text \<open>
  Claim C3: the page-file extension is stripped from the final path segment before the
  titles are derived. The code calls \<open>rstrip(".html")\<close>, which removes every trailing
  character among \<open>.\<close>, \<open>h\<close>, \<open>t\<close>, \<open>m\<close> and \<open>l\<close>, so a slug that ends in one of these
  letters loses more than the extension: the English title of
  \<open>de-nacht--the-night.html\<close> comes out as \<open>The Nig\<close>.
\<close>

theorem extract_titles_rstrip_overrun:
  "title_nl (extract_product_data html
      (py ''/webshop/schilderijenpaintings/abstract/detail/12/de-nacht--the-night.html''))
     = py ''De Nacht'' \<and>
   title_en (extract_product_data html
      (py ''/webshop/schilderijenpaintings/abstract/detail/12/de-nacht--the-night.html''))
     = py ''The Nig''"
  by (simp add: pyeval)

section \<open>Price extraction\<close>


lemma price_search_sound:
  "price_search html = Some g \<Longrightarrow>
     \<exists>pre ws rest. html = pre @ euro # ws @ g @ rest \<and> list_all isspace ws \<and>
       g \<noteq> [] \<and> list_all price_class g"
proof (induction html)
  case Nil
  then show ?case by simp
next
  case (Cons c cs)
  show ?case
  proof (cases "c = euro \<and> takeWhile price_class (dropWhile isspace cs) \<noteq> []")
    case True
    with Cons.prems have g: "g = takeWhile price_class (dropWhile isspace cs)" by simp
    have "cs = takeWhile isspace cs @ g @ dropWhile price_class (dropWhile isspace cs)"
      unfolding g by simp
    then have "c # cs = [] @ euro # takeWhile isspace cs @ g @ dropWhile price_class (dropWhile isspace cs)"
      using True by simp
    moreover have "list_all isspace (takeWhile isspace cs)"
      by (simp add: list_all_iff) (meson set_takeWhileD)
    moreover have "list_all price_class g"
      unfolding g by (simp add: list_all_iff) (meson set_takeWhileD)
    moreover have "g \<noteq> []" using True g by simp
    ultimately show ?thesis by blast
  next
    case False
    with Cons.prems have "price_search cs = Some g" by auto
    with Cons.IH obtain pre ws rest where
      "cs = pre @ euro # ws @ g @ rest" "list_all isspace ws" "g \<noteq> []" "list_all price_class g"
      by blast
    then have "c # cs = (c # pre) @ euro # ws @ g @ rest" by simp
    with \<open>list_all isspace ws\<close> \<open>g \<noteq> []\<close> \<open>list_all price_class g\<close> show ?thesis by blast
  qed
qed

lemma price_str_chars:
  "list_all price_class g \<Longrightarrow> list_all (\<lambda>c. isdigit c \<or> c = 46) (price_str g)"
  by (auto simp: price_str_def replace_char_def remove_char_def list_all_iff price_class_def)




section \<open>Image extraction\<close>

lemma remdups_snoc: "remdups (ys @ [k]) = remdups (filter (\<lambda>y. y \<noteq> k) ys) @ [k]"
  by (induction ys) auto

lemma fromkeys_foldl:
  "foldl (\<lambda>d k. if k \<in> set d then d else d @ [k]) d ks
     = d @ rev (remdups (rev (filter (\<lambda>k. k \<notin> set d) ks)))"
proof (induction ks arbitrary: d)
  case Nil
  then show ?case by simp
next
  case (Cons k ks)
  show ?case
  proof (cases "k \<in> set d")
    case True
    then show ?thesis by (simp add: Cons.IH)
  next
    case False
    have "filter (\<lambda>y. y \<noteq> k) (rev (filter (\<lambda>k. k \<notin> set d) ks))
            = rev (filter (\<lambda>x. x \<notin> set (d @ [k])) ks)"
      by (auto simp: rev_filter[symmetric] intro: filter_cong)
    then show ?thesis
      using False by (simp add: Cons.IH remdups_snoc)
  qed
qed

lemma fromkeys_first_occurrence: "fromkeys ks = rev (remdups (rev ks))"
  unfolding fromkeys_def using fromkeys_foldl[of "[]" ks] by simp

lemma set_fromkeys: "set (fromkeys ks) = set ks"
  by (simp add: fromkeys_first_occurrence)

lemma hd_fromkeys: "ks \<noteq> [] \<Longrightarrow> hd (fromkeys ks) = hd ks"
proof (cases ks)
  case Nil
  assume "ks \<noteq> []"
  with Nil show ?thesis by simp
next
  case (Cons k ks')
  have "fromkeys (k # ks') = k # rev (remdups (rev (filter (\<lambda>x. x \<notin> set [k]) ks')))"
    unfolding fromkeys_def using fromkeys_foldl[of "[k]" ks'] by simp
  with Cons show ?thesis by simp
qed





lemma image_matches_og_b_page: "image_matches (og_tag img_b @ page_abac) = [img_a, img_b, img_a, img_c]"
  by (simp add: pyeval page_abac_def og_tag_def img_a_def img_b_def img_c_def)

lemma og_search_og_b_page: "og_search (og_tag img_b @ page_abac) = Some img_b"
  by (simp add: pyeval page_abac_def og_tag_def img_a_def img_b_def img_c_def)



text \<open>
  Claim C10. When the URL of the og:image tag is already among the upload-path URLs of
  the page, the image list is left as it is: the first element, which is the primary
  image, is the first upload-path URL of the document, whether or not it is the URL of
  the tag.
\<close>

theorem og_image_not_promoted:
  assumes "og_search html = Some p" and "p \<in> set (image_matches html)"
  shows "images (extract_product_data html url) = fromkeys (image_matches html) \<and>
         hd (images (extract_product_data html url)) = hd (image_matches html)"
proof -
  from assms(2) have ne: "image_matches html \<noteq> []" by auto
  from assms have "images (extract_product_data html url) = fromkeys (image_matches html)"
    by (simp add: extract_product_data_def extract_images_def Let_def set_fromkeys)
  with ne show ?thesis by (simp add: hd_fromkeys)
qed

theorem og_image_not_promoted_witness:
  "og_search (og_tag img_b @ page_abac) = Some img_b \<and>
   img_b \<in> set (image_matches (og_tag img_b @ page_abac)) \<and>
   images (extract_product_data (og_tag img_b @ page_abac) (py ''/detail/1/a.html''))
     = [img_a, img_b, img_c] \<and>
   hd (images (extract_product_data (og_tag img_b @ page_abac) (py ''/detail/1/a.html''))) = img_a \<and>
   img_a \<noteq> img_b"
proof -
  have m: "img_b \<in> set (image_matches (og_tag img_b @ page_abac))"
    by (simp add: image_matches_og_b_page)
  have d: "img_a \<noteq> img_b" "img_a \<noteq> img_c" "img_b \<noteq> img_c"
    by (simp_all add: img_a_def img_b_def img_c_def py_def)
  have f: "fromkeys [img_a, img_b, img_a, img_c] = [img_a, img_b, img_c]"
    using d by (simp add: fromkeys_def)
  show ?thesis
    using og_image_not_promoted [OF og_search_og_b_page m, of "py ''/detail/1/a.html''"]
      og_search_og_b_page m d f
    by (simp add: image_matches_og_b_page)
qed

section \<open>Link extraction\<close>

declare dict_get_def [pyeval] qualifies_def [pyeval] handle_starttag_def [pyeval]
  extract_links_def [pyeval] anchor_hrefs_def [pyeval] link_1_def [pyeval] link_2_def [pyeval]
  listing_page_def [pyeval] listing_page_bare_href_def [pyeval] suffix_to_prefix [pyeval]

lemma feed_no_bare_href:
  assumes "None \<notin> set (anchor_hrefs evs)"
  shows "feed links evs =
           Inr (foldl (\<lambda>d k. if k \<in> set d then d else d @ [k]) links
                  (filter qualifies (map the (anchor_hrefs evs))))"
  using assms
proof (induction evs arbitrary: links)
  case Nil
  then show ?case by (simp add: anchor_hrefs_def)
next
  case (Cons ev evs)
  from Cons.prems have rest: "None \<notin> set (anchor_hrefs evs)"
    by (auto simp: anchor_hrefs_def split: if_splits)
  show ?case
  proof (cases "fst ev = py ''a''")
    case False
    then have "handle_starttag links ev = Inr links" and "anchor_hrefs (ev # evs) = anchor_hrefs evs"
      by (simp_all add: handle_starttag_def anchor_hrefs_def)
    then show ?thesis using Cons.IH[OF rest] by simp
  next
    case True
    with Cons.prems obtain href where h: "dict_get (snd ev) (py ''href'') (Some []) = Some href"
      by (cases "dict_get (snd ev) (py ''href'') (Some [])") (auto simp: anchor_hrefs_def)
    from True h have a: "anchor_hrefs (ev # evs) = Some href # anchor_hrefs evs"
      by (simp add: anchor_hrefs_def)
    from True h have "handle_starttag links ev =
        Inr (if qualifies href then (if href \<in> set links then links else links @ [href]) else links)"
      by (simp add: handle_starttag_def)
    then show ?thesis using Cons.IH[OF rest] a by simp
  qed
qed

lemma feed_bare_href:
  assumes "None \<in> set (anchor_hrefs evs)"
  shows "feed links evs = Inl TypeError"
  using assms
proof (induction evs arbitrary: links)
  case Nil
  then show ?case by (simp add: anchor_hrefs_def)
next
  case (Cons ev evs)
  show ?case
  proof (cases "handle_starttag links ev")
    case (Inl err)
    then have "err = TypeError"
      by (auto simp: handle_starttag_def split: option.splits if_splits)
    with Inl show ?thesis by simp
  next
    case (Inr links')
    then have "fst ev = py ''a'' \<longrightarrow> dict_get (snd ev) (py ''href'') (Some []) \<noteq> None"
      by (auto simp: handle_starttag_def split: option.splits if_splits)
    with Cons.prems have "None \<in> set (anchor_hrefs evs)"
      by (auto simp: anchor_hrefs_def split: if_splits)
    with Cons.IH Inr show ?thesis by simp
  qed
qed

text \<open>
  On a page none of whose anchors has an \<open>href\<close> without a value, the extractor returns
  the qualifying \<open>href\<close> values in document order, each at its first occurrence.
\<close>

lemma extract_links_first_occurrence:
  assumes "None \<notin> set (anchor_hrefs evs)"
  shows "extract_links evs = Inr (rev (remdups (rev (filter qualifies (map the (anchor_hrefs evs))))))"
  unfolding extract_links_def feed_no_bare_href[OF assms]
  using fromkeys_foldl[of "[]" "filter qualifies (map the (anchor_hrefs evs))"] by simp

text \<open>
  Claim C9: the extractor returns exactly the qualifying links of the page, in document
  order and without duplicates. On the sample page it does. The code reads the attribute
  with \<open>attrs_dict.get("href", "")\<close>, and the default covers an anchor without \<open>href\<close> but
  not an anchor whose \<open>href\<close> has no value: there the test \<open>"/detail/" in href\<close> raises
  TypeError and no links are returned at all.
\<close>

theorem extract_links_bare_href_raises:
  "extract_links listing_page = Inr [link_1, link_2] \<and>
   extract_links listing_page_bare_href = Inl TypeError"
proof -
  have "None \<in> set (anchor_hrefs listing_page_bare_href)"
    by (simp add: anchor_hrefs_def listing_page_bare_href_def dict_get_def)
  then have "extract_links listing_page_bare_href = Inl TypeError"
    unfolding extract_links_def by (rule feed_bare_href)
  moreover have "extract_links listing_page = Inr [link_1, link_2]"
    by (simp add: pyeval)
  ultimately show ?thesis by simp
qed

section \<open>Retries of fetch\<close>

declare fetch_loop.simps [simp del]

lemma fetch_loop_all_fail:
  assumes "\<forall>k < nat (retries - attempt). failure_of (net e (requests w + k) url) \<noteq> None"
  shows "fst (fetch_loop e url retries attempt w) = None \<and>
         requests (snd (fetch_loop e url retries attempt w)) = requests w + nat (retries - attempt) \<and>
         out (snd (fetch_loop e url retries attempt w)) =
           out w @ map (\<lambda>k. attempt_failed (attempt + int k) url
                               (the (failure_of (net e (requests w + k) url))))
                     [0 ..< nat (retries - attempt)] \<and>
         fs (snd (fetch_loop e url retries attempt w)) = fs w"
  using assms
proof (induction "nat (retries - attempt)" arbitrary: attempt w)
  case 0
  then have "\<not> attempt < retries" by simp
  then show ?case by (simp add: fetch_loop.simps[of e url retries attempt w])
next
  case (Suc n)
  then have lt: "attempt < retries" and n: "n = nat (retries - (attempt + 1))" by simp_all
  from Suc.prems Suc.hyps(2) have f0: "failure_of (net e (requests w) url) \<noteq> None"
    by (metis add.right_neutral zero_less_Suc)
  let ?w = "w\<lparr>requests := requests w + 1,
               out := out w @ [attempt_failed attempt url (the (failure_of (net e (requests w) url)))],
               slept := slept w + (if attempt < retries - 1 then 2 else 0)\<rparr>"
  have step: "fetch_loop e url retries attempt w = fetch_loop e url retries (attempt + 1) ?w"
    using lt f0 by (subst fetch_loop.simps) (simp add: failure_of_def split: response.splits)
  have "\<forall>k < nat (retries - (attempt + 1)). failure_of (net e (requests ?w + k) url) \<noteq> None"
  proof (intro allI impI)
    fix k assume "k < nat (retries - (attempt + 1))"
    then have "Suc k < nat (retries - attempt)" by simp
    with Suc.prems have "failure_of (net e (requests w + Suc k) url) \<noteq> None" by blast
    then show "failure_of (net e (requests ?w + k) url) \<noteq> None" by simp
  qed
  from Suc.hyps(1)[OF n this] have ih:
    "fst (fetch_loop e url retries (attempt + 1) ?w) = None"
    "requests (snd (fetch_loop e url retries (attempt + 1) ?w)) = requests ?w + n"
    "out (snd (fetch_loop e url retries (attempt + 1) ?w)) =
       out ?w @ map (\<lambda>k. attempt_failed (attempt + 1 + int k) url
                            (the (failure_of (net e (requests ?w + k) url)))) [0 ..< n]"
    "fs (snd (fetch_loop e url retries (attempt + 1) ?w)) = fs w"
    using n by simp_all
  have m: "map (\<lambda>k. attempt_failed (attempt + int k) url
                     (the (failure_of (net e (requests w + k) url)))) [0 ..< Suc n]
           = attempt_failed attempt url (the (failure_of (net e (requests w) url))) #
             map (\<lambda>k. attempt_failed (attempt + 1 + int k) url
                     (the (failure_of (net e (requests ?w + k) url)))) [0 ..< n]"
    by (simp add: upt_conv_Cons map_Suc_upt[symmetric] add.commute add.left_commute del: upt_Suc)
  show ?case
    unfolding step Suc.hyps(2)[symmetric] m using ih by simp
qed

text \<open>A failure is returned only when every attempt has been made.\<close>

lemma fetch_loop_None_exhausted:
  "fst (fetch_loop e url retries attempt w) = None \<Longrightarrow>
     requests (snd (fetch_loop e url retries attempt w)) = requests w + nat (retries - attempt)"
proof (induction e url retries attempt w rule: fetch_loop.induct)
  case (1 e url retries attempt w)
  show ?case
  proof (cases "attempt < retries")
    case False
    then show ?thesis by (simp add: fetch_loop.simps[of e url retries attempt w])
  next
    case True
    show ?thesis
    proof (cases "net e (requests w) url")
      case (Body b)
      with True 1(3) show ?thesis by (simp add: fetch_loop.simps[of e url retries attempt w])
    next
      case (ConnFailed c)
      with True 1(1)[OF True ConnFailed] 1(3) show ?thesis
        by (simp add: fetch_loop.simps[of e url retries attempt w] nat_diff_distrib)
    next
      case (ReadFailed c)
      with True 1(2)[OF True ReadFailed] 1(3) show ?thesis
        by (simp add: fetch_loop.simps[of e url retries attempt w] nat_diff_distrib)
    qed
  qed
qed

text \<open>
  Claim C8. Against an endpoint where each of the three requests fails, \<open>fetch\<close> with
  three attempts sends exactly three requests, prints one line per failed attempt with
  its ordinal and its cause, and returns \<open>None\<close>.
\<close>

theorem fetch_retry_exhaustion:
  assumes "\<forall>k<3. failure_of (net e (requests w + k) url) \<noteq> None"
  shows "fst (fetch e url 3 w) = None \<and>
         requests (snd (fetch e url 3 w)) = requests w + 3 \<and>
         out (snd (fetch e url 3 w)) =
           out w @ [attempt_failed 0 url (the (failure_of (net e (requests w) url))),
                    attempt_failed 1 url (the (failure_of (net e (requests w + 1) url))),
                    attempt_failed 2 url (the (failure_of (net e (requests w + 2) url)))]"
proof -
  have u: "[0 ..< 3] = [0, 1, 2::nat]" by (simp add: upt_rec)
  from assms have "\<forall>k < nat (3 - 0). failure_of (net e (requests w + k) url) \<noteq> None" by simp
  from fetch_loop_all_fail[OF this] show ?thesis
    unfolding fetch_def by (simp add: u)
qed

theorem fetch_retry_exhaustion_witness:
  "net dead_env (requests world0) listing_url = ConnFailed (py ''timed out'') \<and>
   net dead_env (requests world0 + 1) listing_url = ConnFailed (py ''timed out'') \<and>
   net dead_env (requests world0 + 2) listing_url = ConnFailed (py ''timed out'') \<and>
   fst (fetch dead_env listing_url 3 world0) = None \<and>
   requests (snd (fetch dead_env listing_url 3 world0)) = 3 \<and>
   out (snd (fetch dead_env listing_url 3 world0)) =
     [py ''  Attempt 1 failed for '' @ listing_url @ py '': timed out'',
      py ''  Attempt 2 failed for '' @ listing_url @ py '': timed out'',
      py ''  Attempt 3 failed for '' @ listing_url @ py '': timed out'']"
proof -
  have h: "\<forall>k<3. failure_of (net dead_env (requests world0 + k) listing_url) \<noteq> None"
    by (simp add: dead_env_def timed_out_def failure_of_def)
  have c: "\<And>n. the (failure_of (net dead_env n listing_url)) = py ''timed out''"
    by (simp add: dead_env_def timed_out_def failure_of_def)
  have s: "show_nat 1 = py ''1''" "show_nat 2 = py ''2''" "show_nat 3 = py ''3''"
    by (simp_all add: py_def show_nat.simps)
  have n: "\<And>n. net dead_env n listing_url = ConnFailed (py ''timed out'')"
    by (simp add: dead_env_def timed_out_def)
  have f: "fst (fetch dead_env listing_url 3 world0) = None \<and>
           requests (snd (fetch dead_env listing_url 3 world0)) = 3 \<and>
           out (snd (fetch dead_env listing_url 3 world0)) =
             [py ''  Attempt 1 failed for '' @ listing_url @ py '': timed out'',
              py ''  Attempt 2 failed for '' @ listing_url @ py '': timed out'',
              py ''  Attempt 3 failed for '' @ listing_url @ py '': timed out'']"
    using fetch_retry_exhaustion[OF h]
    by (simp add: c s attempt_failed_def world0_def py_def show_nat.simps)
  from f n show ?thesis by simp
qed

section \<open>The image downloader\<close>

declare world0_def [pyeval] no_fault_def [pyeval] write_ok_def [pyeval] latin1_def [pyeval]
  jpg_ext_def [pyeval] no_tags_def [pyeval] timed_out_def [pyeval] dead_env_def [pyeval]
  jpeg_head_def [pyeval] no_space_def [pyeval] denied_def [pyeval] good_env_def [pyeval]
  disk_full_env_def [pyeval] locked_env_def [pyeval] image_url_def [pyeval]
  image_dest_def [pyeval] path_name_def [pyeval] say_def [pyeval] mkdir_parents_def [pyeval]
  write_bytes_def [pyeval] download_failed_def [pyeval] try_download_def [pyeval]
  download_image_def [pyeval] failure_of_def [pyeval]

lemma mkdir_chain_elsewhere:
  "dest \<notin> set ps \<Longrightarrow> snd (mkdir_chain e ps f) dest = f dest"
  by (induction ps arbitrary: f) (auto split: option.splits node.splits)

lemma mkdir_parents_keeps_dest:
  "snd (mkdir_parents e (butlast dest) f) dest = f dest"
proof -
  have "dest \<notin> set (tl (prefixes (butlast dest)))"
  proof
    assume a: "dest \<in> set (tl (prefixes (butlast dest)))"
    then have "dest \<in> set (prefixes (butlast dest))"
      by (metis list.sel(2) list.set_sel(2))
    then have "prefix dest (butlast dest)" by (simp add: in_set_prefixes)
    then have "length dest \<le> length (butlast dest)" by (rule prefix_length_le)
    then have "dest = []" by (cases dest rule: rev_cases) simp_all
    with a show False by simp
  qed
  then show ?thesis unfolding mkdir_parents_def by (rule mkdir_chain_elsewhere)
qed

lemma try_download_requests:
  "requests (snd (try_download e url dest w)) = requests w + 1"
  by (auto simp: try_download_def Let_def download_failed_def say_def write_bytes_def
           split: response.splits prod.splits option.splits write_outcome.splits)

lemma try_download_conn:
  assumes "net e (requests w) url = ConnFailed c"
  shows "\<not> fst (try_download e url dest w) \<and> fs (snd (try_download e url dest w)) = fs w"
  using assms by (simp add: try_download_def Let_def download_failed_def say_def)

lemma try_download_mkdir:
  assumes "fst (mkdir_parents e (butlast dest) (fs w)) \<noteq> None"
  shows "\<not> fst (try_download e url dest w) \<and>
         fs (snd (try_download e url dest w)) dest = fs w dest"
proof -
  obtain c f where m: "mkdir_parents e (butlast dest) (fs w) = (Some c, f)"
    using assms by (cases "mkdir_parents e (butlast dest) (fs w)") auto
  with mkdir_parents_keeps_dest[of e dest "fs w"] have f: "f dest = fs w dest" by simp
  show ?thesis
    by (cases "net e (requests w) url")
       (simp_all add: try_download_def Let_def download_failed_def say_def m f)
qed

lemma try_download_read:
  assumes "net e (requests w) url = ReadFailed c"
  shows "\<not> fst (try_download e url dest w) \<and>
         fs (snd (try_download e url dest w)) dest = fs w dest"
proof -
  obtain m f where m: "mkdir_parents e (butlast dest) (fs w) = (m, f)"
    by (cases "mkdir_parents e (butlast dest) (fs w)")
  with mkdir_parents_keeps_dest[of e dest "fs w"] have f: "f dest = fs w dest" by simp
  show ?thesis
    using assms
    by (cases m) (simp_all add: try_download_def Let_def download_failed_def say_def m f)
qed

lemma try_download_write:
  assumes "net e (requests w) url = Body b"
    and "fst (mkdir_parents e (butlast dest) (fs w)) = None"
  shows "write_fault e dest b = WriteOk \<longrightarrow>
           fst (try_download e url dest w) \<and>
           fs (snd (try_download e url dest w)) dest = Some (File b)"
    and "write_fault e dest b = OpenFails c \<longrightarrow>
           \<not> fst (try_download e url dest w) \<and>
           fs (snd (try_download e url dest w)) dest = fs w dest"
    and "write_fault e dest b = WriteFails k c \<longrightarrow>
           \<not> fst (try_download e url dest w) \<and>
           fs (snd (try_download e url dest w)) dest = Some (File (take k b))"
proof -
  obtain f where m: "mkdir_parents e (butlast dest) (fs w) = (None, f)"
    using assms(2) by (cases "mkdir_parents e (butlast dest) (fs w)") auto
  with mkdir_parents_keeps_dest[of e dest "fs w"] have f: "f dest = fs w dest" by simp
  show "write_fault e dest b = WriteOk \<longrightarrow>
           fst (try_download e url dest w) \<and>
           fs (snd (try_download e url dest w)) dest = Some (File b)"
    using assms(1)
    by (simp add: try_download_def Let_def download_failed_def say_def write_bytes_def m f)
  show "write_fault e dest b = OpenFails c \<longrightarrow>
           \<not> fst (try_download e url dest w) \<and>
           fs (snd (try_download e url dest w)) dest = fs w dest"
    using assms(1)
    by (simp add: try_download_def Let_def download_failed_def say_def write_bytes_def m f)
  show "write_fault e dest b = WriteFails k c \<longrightarrow>
           \<not> fst (try_download e url dest w) \<and>
           fs (snd (try_download e url dest w)) dest = Some (File (take k b))"
    using assms(1)
    by (simp add: try_download_def Let_def download_failed_def say_def write_bytes_def m f)
qed

lemma try_download_success:
  assumes "fst (try_download e url dest w)"
  shows "fs (snd (try_download e url dest w)) dest \<noteq> None"
proof (cases "net e (requests w) url")
  case (ConnFailed c)
  from try_download_conn[OF this, of dest] assms show ?thesis by simp
next
  case (ReadFailed c)
  from try_download_read[OF this, of dest] assms show ?thesis by simp
next
  case (Body b)
  show ?thesis
  proof (cases "fst (mkdir_parents e (butlast dest) (fs w)) = None")
    case False
    from try_download_mkdir[OF this, of url] assms show ?thesis by simp
  next
    case True
    from try_download_write[OF Body True] assms show ?thesis
      by (cases "write_fault e dest b") auto
  qed
qed

lemma download_image_present:
  assumes "stat_fault e dest = None" and "fs w dest \<noteq> None"
  shows "download_image e url dest w =
           Inr (True, say (py ''  Image already exists: '' @ path_name dest) w)"
  using assms by (auto simp: download_image_def)

lemma download_image_absent:
  assumes "stat_fault e dest = None" and "fs w dest = None"
  shows "download_image e url dest w = Inr (try_download e url dest w)"
  using assms by (simp add: download_image_def)

text \<open>
  Claim C6, as amended. The errors of the request, of the creation of the directories,
  of the read and of the write are all caught and reported: the downloader then returns
  \<open>False\<close>, and it returns \<open>True\<close> only when all of these succeed. The one error that
  it lets through is an \<open>OSError\<close> of the existence check, which stands before the \<open>try\<close>
  statement. After a failed request, directory creation, read or opening of the file,
  the destination, which was missing before, is still missing. When the write itself
  fails after some bytes, these bytes stay at the destination, and the next call with
  this destination finds them and returns success without a request.
\<close>

theorem download_image_failure:
  "(\<forall>c. stat_fault e dest = Some c \<longrightarrow> download_image e url dest w = Inl (OSError c)) \<and>
   (stat_fault e dest = None \<longrightarrow> (\<exists>ok w'. download_image e url dest w = Inr (ok, w'))) \<and>
   (stat_fault e dest = None \<and> fs w dest = None \<longrightarrow>
      ((\<exists>w'. download_image e url dest w = Inr (True, w')) \<longleftrightarrow>
         (\<exists>b. net e (requests w) url = Body b \<and>
              fst (mkdir_parents e (butlast dest) (fs w)) = None \<and>
              write_fault e dest b = WriteOk)) \<and>
      ((\<exists>c. net e (requests w) url = ConnFailed c) \<or>
       (\<exists>c. net e (requests w) url = ReadFailed c) \<or>
       fst (mkdir_parents e (butlast dest) (fs w)) \<noteq> None \<or>
       (\<exists>b c. net e (requests w) url = Body b \<and> write_fault e dest b = OpenFails c) \<longrightarrow>
         (\<exists>w'. download_image e url dest w = Inr (False, w') \<and> fs w' dest = None)) \<and>
      (\<forall>b k c. net e (requests w) url = Body b \<and>
           fst (mkdir_parents e (butlast dest) (fs w)) = None \<and>
           write_fault e dest b = WriteFails k c \<longrightarrow>
         (\<exists>w'. download_image e url dest w = Inr (False, w') \<and>
               fs w' dest = Some (File (take k b)) \<and>
               (\<exists>w''. download_image e url dest w' = Inr (True, w'') \<and>
                      requests w'' = requests w' \<and> fs w'' = fs w'))))"
proof -
  have A: "\<forall>c. stat_fault e dest = Some c \<longrightarrow> download_image e url dest w = Inl (OSError c)"
    by (simp add: download_image_def)
  have B: "stat_fault e dest = None \<longrightarrow> (\<exists>ok w'. download_image e url dest w = Inr (ok, w'))"
    by (auto simp: download_image_def)
  have C: "((\<exists>w'. download_image e url dest w = Inr (True, w')) \<longleftrightarrow>
         (\<exists>b. net e (requests w) url = Body b \<and>
              fst (mkdir_parents e (butlast dest) (fs w)) = None \<and>
              write_fault e dest b = WriteOk)) \<and>
      ((\<exists>c. net e (requests w) url = ConnFailed c) \<or>
       (\<exists>c. net e (requests w) url = ReadFailed c) \<or>
       fst (mkdir_parents e (butlast dest) (fs w)) \<noteq> None \<or>
       (\<exists>b c. net e (requests w) url = Body b \<and> write_fault e dest b = OpenFails c) \<longrightarrow>
         (\<exists>w'. download_image e url dest w = Inr (False, w') \<and> fs w' dest = None)) \<and>
      (\<forall>b k c. net e (requests w) url = Body b \<and>
           fst (mkdir_parents e (butlast dest) (fs w)) = None \<and>
           write_fault e dest b = WriteFails k c \<longrightarrow>
         (\<exists>w'. download_image e url dest w = Inr (False, w') \<and>
               fs w' dest = Some (File (take k b)) \<and>
               (\<exists>w''. download_image e url dest w' = Inr (True, w'') \<and>
                      requests w'' = requests w' \<and> fs w'' = fs w')))"
    if st: "stat_fault e dest = None" and ab: "fs w dest = None"
  proof -
    let ?r = "try_download e url dest w"
    have dl: "download_image e url dest w = Inr (fst ?r, snd ?r)"
      using download_image_absent[OF st ab] by simp
    have ok: "fst ?r \<longleftrightarrow> (\<exists>b. net e (requests w) url = Body b \<and>
              fst (mkdir_parents e (butlast dest) (fs w)) = None \<and>
              write_fault e dest b = WriteOk)"
    proof (cases "net e (requests w) url")
      case (ConnFailed c)
      with try_download_conn[OF ConnFailed, of dest] show ?thesis by simp
    next
      case (ReadFailed c)
      with try_download_read[OF ReadFailed, of dest] show ?thesis by simp
    next
      case (Body b)
      show ?thesis
      proof (cases "fst (mkdir_parents e (butlast dest) (fs w)) = None")
        case False
        with try_download_mkdir[OF False, of url] show ?thesis by simp
      next
        case True
        from try_download_write[OF Body True] Body True show ?thesis
          by (cases "write_fault e dest b") auto
      qed
    qed
    have early: "\<not> fst ?r \<and> fs (snd ?r) dest = None"
      if "(\<exists>c. net e (requests w) url = ConnFailed c) \<or>
          (\<exists>c. net e (requests w) url = ReadFailed c) \<or>
          fst (mkdir_parents e (butlast dest) (fs w)) \<noteq> None \<or>
          (\<exists>b c. net e (requests w) url = Body b \<and> write_fault e dest b = OpenFails c)"
    proof (cases "fst (mkdir_parents e (butlast dest) (fs w)) = None")
      case False
      from try_download_mkdir[OF False, of url] ab show ?thesis by simp
    next
      case True
      show ?thesis
      proof (cases "net e (requests w) url")
        case (ConnFailed c)
        from try_download_conn[OF ConnFailed, of dest] ab show ?thesis by simp
      next
        case (ReadFailed c)
        from try_download_read[OF ReadFailed, of dest] ab show ?thesis by simp
      next
        case (Body b)
        with that True obtain c where "write_fault e dest b = OpenFails c" by auto
        with try_download_write(2)[OF Body True, of c] ab show ?thesis by simp
      qed
    qed
    have partial: "\<exists>w'. download_image e url dest w = Inr (False, w') \<and>
               fs w' dest = Some (File (take k b)) \<and>
               (\<exists>w''. download_image e url dest w' = Inr (True, w'') \<and>
                      requests w'' = requests w' \<and> fs w'' = fs w')"
      if b: "net e (requests w) url = Body b"
        and m: "fst (mkdir_parents e (butlast dest) (fs w)) = None"
        and wf: "write_fault e dest b = WriteFails k c" for b k c
    proof -
      from try_download_write(3)[OF b m, of k c] wf
      have f: "\<not> fst ?r" and p: "fs (snd ?r) dest = Some (File (take k b))" by simp_all
      from p have "fs (snd ?r) dest \<noteq> None" by simp
      from download_image_present[OF st this, of url]
      have "download_image e url dest (snd ?r) =
              Inr (True, say (py ''  Image already exists: '' @ path_name dest) (snd ?r))" .
      moreover have "requests (say (py ''  Image already exists: '' @ path_name dest) (snd ?r))
                       = requests (snd ?r)"
        and "fs (say (py ''  Image already exists: '' @ path_name dest) (snd ?r)) = fs (snd ?r)"
        by (simp_all add: say_def)
      ultimately show ?thesis using dl f p by auto
    qed
    from dl ok early partial show ?thesis by auto
  qed
  from A B C show ?thesis by blast
qed

theorem download_image_failure_witness:
  "stat_fault locked_env image_dest = Some (py ''[Errno 13] Permission denied'') \<and>
   download_image locked_env image_url image_dest world0
     = Inl (OSError (py ''[Errno 13] Permission denied'')) \<and>
   stat_fault dead_env image_dest = None \<and> fs world0 image_dest = None \<and>
   net dead_env (requests world0) image_url = ConnFailed (py ''timed out'') \<and>
   (\<exists>w'. download_image dead_env image_url image_dest world0 = Inr (False, w') \<and>
         fs w' image_dest = None) \<and>
   stat_fault disk_full_env image_dest = None \<and>
   net disk_full_env (requests world0) image_url = Body [255, 216, 255, 224] \<and>
   fst (mkdir_parents disk_full_env (butlast image_dest) (fs world0)) = None \<and>
   write_fault disk_full_env image_dest [255, 216, 255, 224]
     = WriteFails 2 (py ''[Errno 28] No space left on device'') \<and>
   (\<exists>w'. download_image disk_full_env image_url image_dest world0 = Inr (False, w') \<and>
         fs w' image_dest = Some (File [255, 216]) \<and>
         (\<exists>w''. download_image disk_full_env image_url image_dest w' = Inr (True, w'') \<and>
                requests w'' = requests w' \<and> fs w'' = fs w'))"
proof -
  have l: "stat_fault locked_env image_dest = Some (py ''[Errno 13] Permission denied'')"
    by (simp add: locked_env_def denied_def)
  have d: "stat_fault dead_env image_dest = None" "fs world0 image_dest = None"
    "net dead_env (requests world0) image_url = ConnFailed (py ''timed out'')"
    by (simp_all add: dead_env_def no_fault_def world0_def timed_out_def)
  have f: "stat_fault disk_full_env image_dest = None"
    "net disk_full_env (requests world0) image_url = Body [255, 216, 255, 224]"
    "write_fault disk_full_env image_dest [255, 216, 255, 224]
       = WriteFails 2 (py ''[Errno 28] No space left on device'')"
    by (simp_all add: disk_full_env_def no_fault_def jpeg_head_def no_space_def)
  have m: "fst (mkdir_parents disk_full_env (butlast image_dest) (fs world0)) = None"
    by (simp add: pyeval)
  from download_image_failure[of locked_env image_dest image_url world0] l
  have 1: "download_image locked_env image_url image_dest world0
             = Inl (OSError (py ''[Errno 13] Permission denied''))" by simp
  from download_image_failure[of dead_env image_dest image_url world0] d
  have 2: "\<exists>w'. download_image dead_env image_url image_dest world0 = Inr (False, w') \<and>
         fs w' image_dest = None" by blast
  from download_image_failure[of disk_full_env image_dest image_url world0] d(2) f m
  have 3: "\<exists>w'. download_image disk_full_env image_url image_dest world0 = Inr (False, w') \<and>
         fs w' image_dest = Some (File (take 2 [255, 216, 255, 224])) \<and>
         (\<exists>w''. download_image disk_full_env image_url image_dest w' = Inr (True, w'') \<and>
                requests w'' = requests w' \<and> fs w'' = fs w')" by blast
  from l d f m 1 2 3 show ?thesis by simp
qed

text \<open>
  Claim C6 as stated fails: when the disk is full in the middle of the write, the
  download is reported as failed and the first two bytes are left at the destination;
  the next call finds the file and reports success.
\<close>

theorem download_image_partial_file_counterexample:
  "case download_image disk_full_env image_url image_dest world0 of
     Inl err \<Rightarrow> False
   | Inr r \<Rightarrow>
       fst r = False \<and> fs (snd r) image_dest = Some (File [255, 216]) \<and>
       (case download_image disk_full_env image_url image_dest (snd r) of
          Inl err \<Rightarrow> False
        | Inr r' \<Rightarrow> fst r' = True)"
  by (simp add: pyeval)

text \<open>
  Claim C7, as amended. Provided the existence check itself does not fail: when
  something is at the destination, the downloader returns success without a request
  and without touching the file system. So when the first of two calls with the same
  URL and destination finds the destination missing and succeeds, the second call is a
  success that changes nothing on disk, and the two calls send exactly one request.
  When the first call fails and leaves nothing at the destination, the second call
  sends a request again, two in all. When the first call fails and leaves a partial
  file, the second call returns success without a request.
\<close>

theorem download_image_idempotent:
  assumes "stat_fault e dest = None"
  shows "(fs w dest \<noteq> None \<longrightarrow>
            (\<exists>w'. download_image e url dest w = Inr (True, w') \<and>
                  requests w' = requests w \<and> fs w' = fs w)) \<and>
         (\<forall>w1. fs w dest = None \<and> download_image e url dest w = Inr (True, w1) \<longrightarrow>
            (\<exists>w2. download_image e url dest w1 = Inr (True, w2) \<and>
                  requests w2 = requests w + 1 \<and> fs w2 = fs w1)) \<and>
         (\<forall>w1. fs w dest = None \<and> download_image e url dest w = Inr (False, w1) \<and>
               fs w1 dest = None \<longrightarrow>
            (\<exists>ok w2. download_image e url dest w1 = Inr (ok, w2) \<and>
                     requests w2 = requests w + 2)) \<and>
         (\<forall>w1. fs w dest = None \<and> download_image e url dest w = Inr (False, w1) \<and>
               fs w1 dest \<noteq> None \<longrightarrow>
            (\<exists>w2. download_image e url dest w1 = Inr (True, w2) \<and>
                  requests w2 = requests w + 1))"
proof -
  have present: "\<exists>w'. download_image e url dest v = Inr (True, w') \<and>
                  requests w' = requests v \<and> fs w' = fs v"
    if "fs v dest \<noteq> None" for v
    using download_image_present[OF assms that, of url] by (simp add: say_def)
  have first: "w1 = snd (try_download e url dest w) \<and> requests w1 = requests w + 1"
    if "fs w dest = None" and "download_image e url dest w = Inr (ok, w1)" for ok w1
    using download_image_absent[OF assms that(1), of url] that(2)
      try_download_requests[of e url dest w]
    by (cases "try_download e url dest w") simp
  have a: "fs w dest \<noteq> None \<longrightarrow>
            (\<exists>w'. download_image e url dest w = Inr (True, w') \<and>
                  requests w' = requests w \<and> fs w' = fs w)"
    using present by blast
  have b: "\<exists>w2. download_image e url dest w1 = Inr (True, w2) \<and>
                  requests w2 = requests w + 1 \<and> fs w2 = fs w1"
    if ab: "fs w dest = None" and d: "download_image e url dest w = Inr (True, w1)" for w1
  proof -
    from download_image_absent[OF assms ab, of url] d
    have "fst (try_download e url dest w)" by (cases "try_download e url dest w") simp
    from try_download_success[OF this] first[OF ab d]
    have "fs w1 dest \<noteq> None" by simp
    from present[OF this] first[OF ab d] show ?thesis by auto
  qed
  have c: "\<exists>ok w2. download_image e url dest w1 = Inr (ok, w2) \<and> requests w2 = requests w + 2"
    if ab: "fs w dest = None" and d: "download_image e url dest w = Inr (False, w1)"
      and n: "fs w1 dest = None" for w1
  proof -
    from download_image_absent[OF assms n, of url]
    have "download_image e url dest w1 =
            Inr (fst (try_download e url dest w1), snd (try_download e url dest w1))" by simp
    moreover have "requests (snd (try_download e url dest w1)) = requests w + 2"
      using try_download_requests[of e url dest w1] first[OF ab d] by auto
    ultimately show ?thesis by blast
  qed
  have d: "\<exists>w2. download_image e url dest w1 = Inr (True, w2) \<and> requests w2 = requests w + 1"
    if ab: "fs w dest = None" and d: "download_image e url dest w = Inr (False, w1)"
      and n: "fs w1 dest \<noteq> None" for w1
    using present[OF n] first[OF ab d] by auto
  from a b c d show ?thesis by blast
qed

theorem download_image_idempotent_witness:
  "stat_fault good_env image_dest = None \<and> fs world0 image_dest = None \<and>
   (\<exists>w1. download_image good_env image_url image_dest world0 = Inr (True, w1) \<and>
      (\<exists>w2. download_image good_env image_url image_dest w1 = Inr (True, w2) \<and>
            requests w2 = 1 \<and> fs w2 = fs w1)) \<and>
   stat_fault dead_env image_dest = None \<and>
   (\<exists>w1. download_image dead_env image_url image_dest world0 = Inr (False, w1) \<and>
      fs w1 image_dest = None \<and>
      (\<exists>ok w2. download_image dead_env image_url image_dest w1 = Inr (ok, w2) \<and>
               requests w2 = 2))"
proof -
  have g: "stat_fault good_env image_dest = None" by (simp add: good_env_def no_fault_def)
  have dd: "stat_fault dead_env image_dest = None" by (simp add: dead_env_def no_fault_def)
  have z: "fs world0 image_dest = None" "requests world0 = 0" by (simp_all add: world0_def)
  have 1: "\<exists>w1. download_image good_env image_url image_dest world0 = Inr (True, w1)"
    by (simp add: pyeval)
  have 2: "\<exists>w1. download_image dead_env image_url image_dest world0 = Inr (False, w1) \<and>
             fs w1 image_dest = None"
    by (simp add: pyeval)
  from 1 download_image_idempotent[OF g, of world0 image_url] z
  have 3: "\<exists>w1. download_image good_env image_url image_dest world0 = Inr (True, w1) \<and>
      (\<exists>w2. download_image good_env image_url image_dest w1 = Inr (True, w2) \<and>
            requests w2 = 1 \<and> fs w2 = fs w1)"
    by fastforce
  from 2 download_image_idempotent[OF dd, of world0 image_url] z
  have 4: "\<exists>w1. download_image dead_env image_url image_dest world0 = Inr (False, w1) \<and>
      fs w1 image_dest = None \<and>
      (\<exists>ok w2. download_image dead_env image_url image_dest w1 = Inr (ok, w2) \<and>
               requests w2 = 2)"
    by fastforce
  from g dd z 3 4 show ?thesis by simp
qed

text \<open>
  Claim C7 as stated fails: against a host that does not answer, the first call fails,
  the second call sends a request again and fails too, so that two calls send two
  requests.
\<close>

theorem download_image_twice_counterexample:
  "case download_image dead_env image_url image_dest world0 of
     Inl err \<Rightarrow> False
   | Inr r \<Rightarrow>
       (case download_image dead_env image_url image_dest (snd r) of
          Inl err \<Rightarrow> False
        | Inr r' \<Rightarrow> fst r' = False \<and> requests (snd r') = 2)"
  by (simp add: pyeval)

section \<open>The local image of a record\<close>

declare BASE_URL_def [pyeval] OUTPUT_DIR_def [pyeval] absolute_def [pyeval]
  img_filename_def [pyeval] img_path_def [pyeval] store_image_def [pyeval]
  process_detail_def [pyeval] CATEGORIES_def [pyeval] process_link_def [pyeval]
  process_category_def [pyeval] sort_by_id_def [pyeval] main_def [pyeval] manifest_def [pyeval]
  stilte_listing_def [pyeval] stilte_tags_def [pyeval] stilte_net_def [pyeval]
  stilte_env_def [pyeval] stilte_image_def [pyeval] listing_url_def [pyeval]
  fetch_def [pyeval] attempt_failed_def [pyeval] match_id_at_def [pyeval]
  extract_id_def [pyeval] page_abac_def [pyeval] img_a_def [pyeval] img_b_def [pyeval]
  img_c_def [pyeval]

lemma store_image_empty:
  assumes "store_image e cat slg imgs w = Inr r"
  shows "fst r = [] \<longleftrightarrow> imgs = []"
  using assms
  by (cases imgs) (auto simp: store_image_def py_def split: option.splits sum.splits)

lemma process_detail_local_image:
  assumes "process_detail e cat link html w = Inr r"
  shows "local_image_set (fst r)"
  using assms store_image_empty
  by (auto simp: process_detail_def Let_def local_image_set_def split: sum.splits)

lemma process_link_local_image:
  assumes "list_all local_image_set (fst s)" and "process_link e cat link s = Inr s'"
  shows "list_all local_image_set (fst s')"
  using assms process_detail_local_image
  by (auto simp: process_link_def Let_def split: if_splits sum.splits)

lemma process_links_local_image:
  assumes "list_all local_image_set (fst s)" and "process_links e cat links s = Inr s'"
  shows "list_all local_image_set (fst s')"
  using assms
proof (induction links arbitrary: s)
  case Nil
  then show ?case by simp
next
  case (Cons link links)
  from Cons.prems(2) obtain s1 where 1: "process_link e cat link s = Inr s1"
    and 2: "process_links e cat links s1 = Inr s'"
    by (auto split: sum.splits)
  from process_link_local_image[OF Cons.prems(1) 1] Cons.IH 2 show ?case by blast
qed

lemma process_category_local_image:
  assumes "list_all local_image_set (fst s)" and "process_category e c s = Inr s'"
  shows "list_all local_image_set (fst s')"
proof -
  let ?r = "fetch e (BASE_URL @ snd c) 3
              (say (10 # py ''--- Category: '' @ fst c @ py '' ---'') (snd s))"
  show ?thesis
  proof (cases "fst ?r = None \<or> fst ?r = Some []")
    case True
    with assms show ?thesis by (auto simp: process_category_def Let_def)
  next
    case False
    with assms(2) obtain links w2 where "process_links e (fst c) links (fst s, w2) = Inr s'"
      by (auto simp: process_category_def Let_def split: sum.splits if_splits)
    with assms(1) process_links_local_image[of "(fst s, w2)" e "fst c" links s']
    show ?thesis by simp
  qed
qed

lemma crawl_local_image:
  assumes "list_all local_image_set (fst s)" and "crawl e cs s = Inr s'"
  shows "list_all local_image_set (fst s')"
  using assms
proof (induction cs arbitrary: s)
  case Nil
  then show ?case by simp
next
  case (Cons c cs)
  from Cons.prems(2) obtain s1 where 1: "process_category e c s = Inr s1"
    and 2: "crawl e cs s1 = Inr s'"
    by (auto split: sum.splits)
  from process_category_local_image[OF Cons.prems(1) 1] Cons.IH 2 show ?case by blast
qed

lemma main_local_image: "list_all local_image_set (manifest (main e w))"
proof (cases "crawl e CATEGORIES ([], w)")
  case (Inl err)
  then show ?thesis by (simp add: main_def manifest_def)
next
  case (Inr s)
  have "list_all local_image_set (fst ([] :: painting list, w))" by simp
  from crawl_local_image[OF this Inr] have "list_all local_image_set (fst s)" .
  then have "list_all local_image_set (sort_by_id (fst s))"
    by (simp add: sort_by_id_def list_all_iff)
  with Inr show ?thesis by (simp add: main_def manifest_def)
qed

lemma download_image_leaves_file:
  assumes "download_image e u dest w = Inr (True, w')"
  shows "fs w' dest \<noteq> None"
proof -
  from assms have st: "stat_fault e dest = None"
    by (auto simp: download_image_def split: option.splits)
  show ?thesis
  proof (cases "fs w dest = None")
    case True
    from download_image_absent[OF st True, of u] assms
    have "fst (try_download e u dest w)" and "w' = snd (try_download e u dest w)"
      by (cases "try_download e u dest w", simp)+
    with try_download_success[of e u dest w] show ?thesis by simp
  next
    case False
    from download_image_present[OF st False, of u] assms show ?thesis
      using False by (auto simp: say_def)
  qed
qed

text \<open>No step of the run removes what is on disk.\<close>

lemma fetch_loop_fs: "fs (snd (fetch_loop e url retries attempt w)) = fs w"
proof (induction e url retries attempt w rule: fetch_loop.induct)
  case (1 e url retries attempt w)
  show ?case
  proof (cases "attempt < retries")
    case False
    then show ?thesis by (simp add: fetch_loop.simps[of e url retries attempt w])
  next
    case True
    show ?thesis
    proof (cases "net e (requests w) url")
      case (Body b)
      with True show ?thesis by (simp add: fetch_loop.simps[of e url retries attempt w])
    next
      case (ConnFailed c)
      with True 1(1)[OF True ConnFailed] show ?thesis
        by (simp add: fetch_loop.simps[of e url retries attempt w])
    next
      case (ReadFailed c)
      with True 1(2)[OF True ReadFailed] show ?thesis
        by (simp add: fetch_loop.simps[of e url retries attempt w])
    qed
  qed
qed

lemma fetch_fs: "fs (snd (fetch e url retries w)) = fs w"
  by (simp add: fetch_def fetch_loop_fs)

lemma mkdir_chain_keeps:
  "f q \<noteq> None \<Longrightarrow> snd (mkdir_chain e ps f) q \<noteq> None"
  by (induction ps arbitrary: f) (auto split: option.splits node.splits)

lemma try_download_keeps:
  assumes "fs w q \<noteq> None"
  shows "fs (snd (try_download e url dest w)) q \<noteq> None"
proof -
  obtain m f where m: "mkdir_parents e (butlast dest) (fs w) = (m, f)"
    by (cases "mkdir_parents e (butlast dest) (fs w)")
  from mkdir_chain_keeps[of "fs w" q e "tl (prefixes (butlast dest))"] assms m
  have f: "f q \<noteq> None" by (simp add: mkdir_parents_def)
  have wr: "snd (write_bytes e dest b f) q \<noteq> None" for b
    using f by (cases "write_fault e dest b") (simp_all add: write_bytes_def)
  show ?thesis
  proof (cases "net e (requests w) url")
    case (ConnFailed c)
    with assms show ?thesis by (simp add: try_download_def Let_def download_failed_def say_def)
  next
    case (ReadFailed c)
    with f show ?thesis
      by (cases m) (simp_all add: try_download_def Let_def download_failed_def say_def m)
  next
    case (Body b)
    obtain x f' where x: "write_bytes e dest b f = (x, f')" by (cases "write_bytes e dest b f")
    with wr[of b] have f': "f' q \<noteq> None" by simp
    from Body f f' show ?thesis
      by (cases m; cases x)
         (simp_all add: try_download_def Let_def download_failed_def say_def m x)
  qed
qed

lemma download_image_keeps:
  assumes "download_image e url dest w = Inr r" and "fs w q \<noteq> None"
  shows "fs (snd r) q \<noteq> None"
proof (cases "fs w dest = None")
  case True
  with assms(1) have "r = try_download e url dest w"
    by (cases "stat_fault e dest") (simp_all add: download_image_def)
  with try_download_keeps[OF assms(2), of e url dest] show ?thesis by simp
next
  case False
  with assms(1) have "r = (True, say (py ''  Image already exists: '' @ path_name dest) w)"
    by (cases "stat_fault e dest") (auto simp: download_image_def)
  with assms(2) show ?thesis by (simp add: say_def)
qed

lemma process_detail_keeps:
  assumes "process_detail e cat link html w = Inr r" and "fs w q \<noteq> None"
  shows "fs (snd r) q \<noteq> None"
proof (cases "images (extract_product_data html link)")
  case Nil
  with assms show ?thesis
    by (auto simp: process_detail_def Let_def store_image_def say_def)
next
  case (Cons i rest)
  let ?slg = "slugify (title_nl (extract_product_data html link))"
  from assms(1) Cons obtain x where x: "url_ext e (absolute i) = Some x"
    by (cases "url_ext e (absolute i)") (simp_all add: process_detail_def Let_def store_image_def)
  from assms(1) Cons x obtain r' where
    d: "download_image e (absolute i) (img_path cat (img_filename ?slg x)) w = Inr r'"
    by (cases "download_image e (absolute i) (img_path cat (img_filename ?slg x)) w")
       (simp_all add: process_detail_def Let_def store_image_def)
  from assms(1) Cons x d have "snd r = snd r'"
    by (auto simp: process_detail_def Let_def store_image_def)
  with download_image_keeps[OF d assms(2)] show ?thesis by simp
qed

lemma process_link_keeps:
  assumes "process_link e cat link s = Inr s'" and "fs (snd s) q \<noteq> None"
  shows "fs (snd s') q \<noteq> None"
proof -
  let ?r = "fetch e (absolute link) 3
              (say (10 # py ''Processing: '' @ split_last 47 link) (snd s))"
  have r: "fs (snd ?r) q \<noteq> None" using assms(2) by (simp add: fetch_fs say_def)
  show ?thesis
  proof (cases "fst ?r = None \<or> fst ?r = Some []")
    case True
    with assms(1) r show ?thesis by (auto simp: process_link_def Let_def say_def)
  next
    case False
    with assms(1) obtain d where d: "process_detail e cat link (the (fst ?r)) (snd ?r) = Inr d"
      by (cases "process_detail e cat link (the (fst ?r)) (snd ?r)")
         (simp_all add: process_link_def Let_def)
    from assms(1) False d have s': "snd s' = (snd d)\<lparr>slept := slept (snd d) + 1 / 2\<rparr>"
      by (auto simp: process_link_def Let_def)
    from process_detail_keeps[OF d r] s' show ?thesis by simp
  qed
qed

lemma process_links_keeps:
  assumes "process_links e cat links s = Inr s'" and "fs (snd s) q \<noteq> None"
  shows "fs (snd s') q \<noteq> None"
  using assms
proof (induction links arbitrary: s)
  case Nil
  then show ?case by simp
next
  case (Cons link links)
  from Cons.prems(1) obtain s1 where 1: "process_link e cat link s = Inr s1"
    and 2: "process_links e cat links s1 = Inr s'"
    by (auto split: sum.splits)
  from process_link_keeps[OF 1 Cons.prems(2)] Cons.IH[OF 2] show ?case by blast
qed

lemma process_category_keeps:
  assumes "process_category e c s = Inr s'" and "fs (snd s) q \<noteq> None"
  shows "fs (snd s') q \<noteq> None"
proof -
  let ?r = "fetch e (BASE_URL @ snd c) 3
              (say (10 # py ''--- Category: '' @ fst c @ py '' ---'') (snd s))"
  have r: "fs (snd ?r) q \<noteq> None" using assms(2) by (simp add: fetch_fs say_def)
  show ?thesis
  proof (cases "fst ?r = None \<or> fst ?r = Some []")
    case True
    with assms(1) r show ?thesis by (auto simp: process_category_def Let_def say_def)
  next
    case False
    with assms(1) obtain links where el: "extract_links (starttags e (the (fst ?r))) = Inr links"
      by (cases "extract_links (starttags e (the (fst ?r)))")
         (simp_all add: process_category_def Let_def)
    define w2 where "w2 = say (py ''Found '' @ show_nat (length links) @
                               py '' paintings in '' @ fst c) (snd ?r)"
    define m where "m = mkdir_parents e (OUTPUT_DIR @ [fst c]) (fs w2)"
    from assms(1) False el have l: "process_links e (fst c) links (fst s, w2\<lparr>fs := snd m\<rparr>) = Inr s'"
      by (simp add: process_category_def Let_def w2_def m_def split: if_splits)
    have "fs w2 q \<noteq> None" using r by (simp add: w2_def say_def)
    then have "snd m q \<noteq> None"
      unfolding m_def mkdir_parents_def by (rule mkdir_chain_keeps)
    with process_links_keeps[OF l, of q] show ?thesis by simp
  qed
qed

lemma crawl_keeps:
  assumes "crawl e cs s = Inr s'" and "fs (snd s) q \<noteq> None"
  shows "fs (snd s') q \<noteq> None"
  using assms
proof (induction cs arbitrary: s)
  case Nil
  then show ?case by simp
next
  case (Cons c cs)
  from Cons.prems(1) obtain s1 where 1: "process_category e c s = Inr s1"
    and 2: "crawl e cs s1 = Inr s'"
    by (auto split: sum.splits)
  from process_category_keeps[OF 1 Cons.prems(2)] Cons.IH[OF 2] show ?case by blast
qed

text \<open>
  Claim C1, as amended. In the manifest the local image of a record is empty exactly
  when the record has no images. For a record with images the local image is the path
  \<open>images/paintings/<category>/<slug><ext>\<close>, whatever the image downloader returns: when
  it returns success, the file that the path names is on disk once the item has been
  processed, and no later step of the run removes a file; when it reports a failure,
  the record is made with the same path, which is not emptied and names nothing when
  nothing is at the destination. Either way the record is appended to the result.
\<close>

theorem local_image_assignment:
  "list_all (\<lambda>p. local_image p = [] \<longleftrightarrow> images p = []) (manifest (main e w)) \<and>
   (images (extract_product_data html link) = [] \<longrightarrow>
      (\<exists>p w'. process_detail e cat link html w = Inr (p, w') \<and> local_image p = [])) \<and>
   (\<forall>i rest x ok w'.
      images (extract_product_data html link) = i # rest \<and>
      url_ext e (absolute i) = Some x \<and>
      download_image e (absolute i)
        (img_path cat (img_filename (slugify (title_nl (extract_product_data html link))) x)) w
        = Inr (ok, w') \<longrightarrow>
      (\<exists>p. process_detail e cat link html w = Inr (p, w') \<and>
           local_image p = py ''images/paintings/'' @ cat @ py ''/'' @
             img_filename (slugify (title_nl (extract_product_data html link))) x \<and>
           local_image p \<noteq> [] \<and>
           (ok \<longrightarrow>
              fs w' (img_path cat
                (img_filename (slugify (title_nl (extract_product_data html link))) x))
                \<noteq> None))) \<and>
   (\<forall>links s s' q.
      process_links e cat links s = Inr s' \<and> fs (snd s) q \<noteq> None \<longrightarrow> fs (snd s') q \<noteq> None) \<and>
   (\<forall>cs s s' q.
      crawl e cs s = Inr s' \<and> fs (snd s) q \<noteq> None \<longrightarrow> fs (snd s') q \<noteq> None) \<and>
   (\<forall>s page p w1.
      fst (fetch e (absolute link) 3
             (say (10 # py ''Processing: '' @ split_last 47 link) (snd s))) = Some page \<and>
      page \<noteq> [] \<and>
      process_detail e cat link page
        (snd (fetch e (absolute link) 3
                (say (10 # py ''Processing: '' @ split_last 47 link) (snd s)))) = Inr (p, w1) \<longrightarrow>
      process_link e cat link s = Inr (fst s @ [p], w1\<lparr>slept := slept w1 + 1 / 2\<rparr>))"
proof -
  let ?slg = "slugify (title_nl (extract_product_data html link))"
  have 1: "list_all (\<lambda>p. local_image p = [] \<longleftrightarrow> images p = []) (manifest (main e w))"
    using main_local_image[of e w] by (simp add: local_image_set_def[abs_def])
  have 2: "images (extract_product_data html link) = [] \<longrightarrow>
      (\<exists>p w'. process_detail e cat link html w = Inr (p, w') \<and> local_image p = [])"
    by (simp add: process_detail_def store_image_def Let_def)
  have 3: "\<exists>p. process_detail e cat link html w = Inr (p, w') \<and>
           local_image p = py ''images/paintings/'' @ cat @ py ''/'' @ img_filename ?slg x \<and>
           local_image p \<noteq> [] \<and>
           (ok \<longrightarrow> fs w' (img_path cat (img_filename ?slg x)) \<noteq> None)"
    if a: "images (extract_product_data html link) = i # rest"
      and x: "url_ext e (absolute i) = Some x"
      and d: "download_image e (absolute i) (img_path cat (img_filename ?slg x)) w = Inr (ok, w')"
    for i rest x ok w'
  proof -
    have "ok \<longrightarrow> fs w' (img_path cat (img_filename ?slg x)) \<noteq> None"
    proof
      assume ok
      with d have "download_image e (absolute i) (img_path cat (img_filename ?slg x)) w
                     = Inr (True, w')" by simp
      then show "fs w' (img_path cat (img_filename ?slg x)) \<noteq> None"
        by (rule download_image_leaves_file)
    qed
    moreover have "py ''images/paintings/'' @ cat @ py ''/'' @ img_filename ?slg x \<noteq> []"
      by (simp add: py_def)
    ultimately show ?thesis
      using a x d by (simp add: process_detail_def store_image_def Let_def)
  qed
  have 4: "\<forall>links s s' q.
      process_links e cat links s = Inr s' \<and> fs (snd s) q \<noteq> None \<longrightarrow> fs (snd s') q \<noteq> None"
    using process_links_keeps by blast
  have 5: "\<forall>cs s s' q.
      crawl e cs s = Inr s' \<and> fs (snd s) q \<noteq> None \<longrightarrow> fs (snd s') q \<noteq> None"
    using crawl_keeps by blast
  have 6: "\<forall>s page p w1.
      fst (fetch e (absolute link) 3
             (say (10 # py ''Processing: '' @ split_last 47 link) (snd s))) = Some page \<and>
      page \<noteq> [] \<and>
      process_detail e cat link page
        (snd (fetch e (absolute link) 3
                (say (10 # py ''Processing: '' @ split_last 47 link) (snd s)))) = Inr (p, w1) \<longrightarrow>
      process_link e cat link s = Inr (fst s @ [p], w1\<lparr>slept := slept w1 + 1 / 2\<rparr>)"
    by (simp add: process_link_def Let_def)
  from 1 2 3 4 5 6 show ?thesis by blast
qed

theorem local_image_assignment_witness:
  "images (extract_product_data page_abac link_2) = [img_a, img_b, img_c] \<and>
   url_ext good_env (absolute img_a) = Some (py ''.jpg'') \<and>
   img_path (py ''abstract'')
     (img_filename (slugify (title_nl (extract_product_data page_abac link_2))) (py ''.jpg''))
     = stilte_image \<and>
   (\<exists>w'. download_image good_env (absolute img_a) stilte_image world0 = Inr (True, w') \<and>
      (\<exists>p. process_detail good_env (py ''abstract'') link_2 page_abac world0 = Inr (p, w') \<and>
           local_image p = py ''images/paintings/abstract/stilte.jpg'' \<and>
           fs w' stilte_image \<noteq> None))"
proof -
  let ?slg = "slugify (title_nl (extract_product_data page_abac link_2))"
  have a: "images (extract_product_data page_abac link_2) = img_a # [img_b, img_c]"
    by (simp add: pyeval link_2_def)
  have x: "url_ext good_env (absolute img_a) = Some (py ''.jpg'')"
    by (simp add: good_env_def jpg_ext_def)
  have n: "img_filename ?slg (py ''.jpg'') = py ''stilte.jpg''"
    by (simp add: pyeval link_2_def)
  have p: "img_path (py ''abstract'') (py ''stilte.jpg'') = stilte_image"
    by (simp add: pyeval)
  have c: "py ''images/paintings/'' @ py ''abstract'' @ py ''/'' @ py ''stilte.jpg''
             = py ''images/paintings/abstract/stilte.jpg''"
    by (simp add: py_def)
  have "\<exists>w'. download_image good_env (absolute img_a) stilte_image world0 = Inr (True, w')"
    by (simp add: pyeval)
  then obtain w' where
    d: "download_image good_env (absolute img_a) stilte_image world0 = Inr (True, w')" ..
  have d': "download_image good_env (absolute img_a)
              (img_path (py ''abstract'') (img_filename ?slg (py ''.jpg''))) world0 = Inr (True, w')"
    unfolding n p by (rule d)
  note t = local_image_assignment[of good_env world0 page_abac link_2 "py ''abstract''",
      THEN conjunct2, THEN conjunct2, THEN conjunct1, rule_format,
      of img_a "[img_b, img_c]" "py ''.jpg''" True w', OF conjI[OF a conjI[OF x d']]]
  from t obtain q where
    q: "process_detail good_env (py ''abstract'') link_2 page_abac world0 = Inr (q, w')"
      "local_image q = py ''images/paintings/'' @ py ''abstract'' @ py ''/'' @
         img_filename ?slg (py ''.jpg'')"
      "fs w' (img_path (py ''abstract'') (img_filename ?slg (py ''.jpg''))) \<noteq> None"
    by blast
  from q(2) have l: "local_image q = py ''images/paintings/abstract/stilte.jpg''"
    unfolding n c .
  from q(3) have f: "fs w' stilte_image \<noteq> None" unfolding n p .
  have np: "img_path (py ''abstract'') (img_filename ?slg (py ''.jpg'')) = stilte_image"
    unfolding n p ..
  from a x np d q(1) l f show ?thesis by blast
qed

text \<open>
  Claim C1 as stated fails: in a run where the image cannot be downloaded, the record
  goes into the manifest with a local image that names a file which is not on disk.
\<close>

theorem local_image_dangling_counterexample:
  "case main stilte_env world0 of
     Inl err \<Rightarrow> False
   | Inr r \<Rightarrow>
       map local_image (fst r) = [py ''images/paintings/abstract/stilte.jpg''] \<and>
       fs (snd r) stilte_image = None"
  by (simp add: pyeval fetch_loop.simps)

end
